theory Spec2Isabelle
  imports Main
begin

section \<open>Priorities, jobs and the job bank\<close>

text \<open>
  \<^verbatim>\<open>enum class Priority : size_t { Normal, High, Critical };\<close> (thread_pool.h).
  The enumerators have the underlying values 0, 1 and 2. A priority is one of the three
  enumerators; a value that only a cast can produce is outside the model.
\<close>

datatype Priority = Normal | High | Critical

fun priority_value :: "Priority \<Rightarrow> nat" where
  "priority_value Normal = 0"
| "priority_value High = 1"
| "priority_value Critical = 2"

text \<open>
  \<^verbatim>\<open>std::greater<Priority>\<close>, the comparison object of the map: \<open>a\<close> is ordered before
  \<open>b\<close> when \<open>a > b\<close> on the underlying values.
\<close>

definition greater :: "Priority \<Rightarrow> Priority \<Rightarrow> bool" where
  "greater a b = (priority_value b < priority_value a)"

text \<open>
  The only callable that \<^verbatim>\<open>Schedule\<close> ever hands to \<^verbatim>\<open>AddJob\<close> is the lambda
  \<^verbatim>\<open>[job] { (*job)(); }\<close>, where \<^verbatim>\<open>job\<close> is a shared pointer to a packaged task. The
  pointer is the address of the task in the heap of the model.
  A \<^verbatim>\<open>std::function<void()>\<close> either holds such a target or is empty (\<open>None\<close>,
  which compares equal to \<^verbatim>\<open>nullptr\<close>).
\<close>

datatype target = InvokeTask nat

type_synonym job_function = "target option"

text \<open>
  \<^verbatim>\<open>std::map<Priority, std::queue<std::function<void()>>, std::greater<Priority>>\<close>:
  the entries of the map in iteration order, which the map keeps sorted by the comparison
  object. A queue is the list of its elements, front first.
\<close>

type_synonym bank = "(Priority \<times> job_function list) list"

text \<open>
  \<^verbatim>\<open>operator[]\<close> of the map: when the key is absent, a value-initialised (empty) queue
  is inserted at the key's place in the order; then the mapped queue is accessed.
  \<open>map_subscript\<close> is the insertion, \<open>map_apply\<close> the access that writes through the
  returned reference, \<open>map_at\<close> the access that reads.
\<close>

fun map_subscript :: "Priority \<Rightarrow> bank \<Rightarrow> bank" where
  "map_subscript p [] = [(p, [])]"
| "map_subscript p ((k, q) # rest) =
     (if k = p then (k, q) # rest
      else if greater p k then (p, []) # (k, q) # rest
      else (k, q) # map_subscript p rest)"

fun map_apply :: "Priority \<Rightarrow> (job_function list \<Rightarrow> job_function list) \<Rightarrow> bank \<Rightarrow> bank" where
  "map_apply p f [] = []"
| "map_apply p f ((k, q) # rest) =
     (if k = p then (k, f q) # rest else (k, q) # map_apply p f rest)"

fun map_at :: "Priority \<Rightarrow> bank \<Rightarrow> job_function list option" where
  "map_at p [] = None"
| "map_at p ((k, q) # rest) = (if k = p then Some q else map_at p rest)"

text \<open>\<^verbatim>\<open>m_jobsByPriority[p] = {};\<close>\<close>

definition assign_empty :: "Priority \<Rightarrow> bank \<Rightarrow> bank" where
  "assign_empty p b = map_apply p (\<lambda>q. []) (map_subscript p b)"

text \<open>\<^verbatim>\<open>m_jobsByPriority[priority].emplace(std::move(job));\<close>\<close>

definition emplace :: "Priority \<Rightarrow> job_function \<Rightarrow> bank \<Rightarrow> bank" where
  "emplace p job b = map_apply p (\<lambda>q. q @ [job]) (map_subscript p b)"

text \<open>
  The loop of the wait predicate:
  \<^verbatim>\<open>bool allQueuesEmpty = true;
  for (const auto& kvp : m_jobsByPriority) { allQueuesEmpty &= kvp.second.empty(); }\<close>
\<close>

fun all_queues_empty :: "bool \<Rightarrow> bank \<Rightarrow> bool" where
  "all_queues_empty allQueuesEmpty [] = allQueuesEmpty"
| "all_queues_empty allQueuesEmpty (kvp # rest) =
     all_queues_empty (allQueuesEmpty \<and> snd kvp = []) rest"

text \<open>
  The dequeue scan of the worker:
  \<^verbatim>\<open>for (auto& kvp : m_jobsByPriority) {
    auto& jobs = kvp.second;
    if (jobs.empty()) { continue; }
    job = std::move(jobs.front());
    jobs.pop();
    break;
  }\<close>
  The result is the value of \<^verbatim>\<open>job\<close> after the loop (it starts empty) and the map after
  the loop.
\<close>

fun dequeue_scan :: "bank \<Rightarrow> job_function \<times> bank" where
  "dequeue_scan [] = (None, [])"
| "dequeue_scan ((k, []) # rest) =
     (case dequeue_scan rest of (job, rest') \<Rightarrow> (job, (k, []) # rest'))"
| "dequeue_scan ((k, front # jobs) # rest) = (front, (k, jobs) # rest)"

section \<open>Packaged tasks\<close>

text \<open>
  A callable bound to its arguments is represented by what one invocation of it does:
  it returns a value or throws.
\<close>

text \<open>
  The exceptions of the model: one thrown by a submitted callable, the
  \<^verbatim>\<open>std::future_error\<close> of a packaged task that is invoked a second time, and the
  \<^verbatim>\<open>std::bad_function_call\<close> of an empty \<^verbatim>\<open>std::function\<close> that is invoked.
\<close>

datatype exception = CallableError string | PromiseAlreadySatisfied | BadFunctionCall

datatype 'r outcome = Returns 'r | Throws exception

text \<open>
  \<^verbatim>\<open>std::packaged_task<R()>\<close> of the C++ standard library: the stored task and the shared
  state that the future returned by \<^verbatim>\<open>get_future\<close> reads. The shared state is \<open>None\<close>
  until the task has been invoked.
\<close>

record 'r packaged_task =
  stored_task :: "'r outcome"
  shared_state :: "'r outcome option"

section \<open>Threads and the state of the pool\<close>

datatype thread_id = WorkerThread nat | CallerThread nat

text \<open>
  The program points of the lambda that every worker thread runs (\<^verbatim>\<open>Init\<close>):
  \<^item> \<open>LoopHead\<close>: about to test \<^verbatim>\<open>while (m_running)\<close>;
  \<^item> \<open>LockGuard\<close>: about to construct \<^verbatim>\<open>std::unique_lock<std::mutex> ul(m_guard)\<close>;
  \<^item> \<open>WaitPredicate\<close>: inside \<^verbatim>\<open>m_cvSleepCtrl.wait(ul, pred)\<close>, holding the lock, about to
    evaluate the predicate;
  \<^item> \<open>WaitBlocked\<close>: inside the wait, lock released, blocked on the condition variable;
  \<^item> \<open>WaitReacquire\<close>: woken up inside the wait, about to lock the mutex again;
  \<^item> \<open>ScanQueues\<close>: the wait has returned, holding the lock, about to scan the queues;
  \<^item> \<open>RunJob job\<close>: the lock is released, about to test \<^verbatim>\<open>job != nullptr\<close> and run the job;
  \<^item> \<open>Finished\<close>: the loop has been left and the thread function has returned;
  \<^item> \<open>Terminated e\<close>: the exception \<open>e\<close> has escaped the thread function (the loop has
    no handler).
\<close>

datatype worker_pc =
  LoopHead | LockGuard | WaitPredicate | WaitBlocked | WaitReacquire | ScanQueues
| RunJob job_function | Finished | Terminated exception

text \<open>
  An element of \<^verbatim>\<open>m_workers\<close>: the \<^verbatim>\<open>std::thread\<close> handle (joinable until it has been
  joined) together with the program point of the thread it stands for.
\<close>

record worker =
  pc :: worker_pc
  joinable :: bool

text \<open>
  The program points of a thread that calls into the pool: inside
  \<^verbatim>\<open>ThreadPool::impl::AddJob\<close> (reached from \<^verbatim>\<open>Schedule\<close>), inside
  \<^verbatim>\<open>ThreadPool::impl::Shutdown\<close>, or outside the pool (\<open>Idle\<close>).
\<close>

datatype caller_pc =
  Idle
| AddJob_lock job_function Priority
| AddJob_emplace job_function Priority
| AddJob_notify
| AddJob_unlock
| Shutdown_notify
| Shutdown_join nat

text \<open>
  The members of \<^verbatim>\<open>ThreadPool::impl\<close>, the program points of the calling threads and the
  heap of packaged tasks. \<^verbatim>\<open>m_guard\<close> is the owner of the mutex, if any. The waiting set
  of \<^verbatim>\<open>m_cvSleepCtrl\<close> is the set of workers at \<open>WaitBlocked\<close>.
\<close>

record 'r pool =
  m_running :: bool
  m_guard :: "thread_id option"
  m_workers :: "worker list"
  m_jobsByPriority :: bank
  callers :: "nat \<Rightarrow> caller_pc"
  heap :: "'r packaged_task list"

section \<open>Construction\<close>

text \<open>
  \<^verbatim>\<open>std::make_unique<ThreadPool::impl>()\<close>: the default member initialisers
  (\<^verbatim>\<open>bool m_running = true;\<close>), an unlocked mutex, no workers, an empty map.
\<close>

definition impl_new :: "'r pool" where
  "impl_new = \<lparr>m_running = True, m_guard = None, m_workers = [], m_jobsByPriority = [],
     callers = (\<lambda>c. Idle), heap = []\<rparr>"

definition INT_MAX :: nat where
  "INT_MAX = 2147483647"

text \<open>
  \<^verbatim>\<open>for (int i = 0; i < threadCount; i++) { m_workers.push_back(std::thread(...)); }\<close>
  A new thread starts at the head of its loop and is joinable. The counter is an
  \<^verbatim>\<open>int\<close>: incrementing it at \<open>INT_MAX\<close> is undefined, which is the result \<open>None\<close>.
  A failure to allocate the vector or to start a thread is outside the model.
\<close>

function spawn_workers :: "nat \<Rightarrow> nat \<Rightarrow> 'r pool \<Rightarrow> 'r pool option" where
  "spawn_workers i threadCount s =
     (if i < threadCount then
        (if i = INT_MAX then None
         else spawn_workers (i + 1) threadCount
                (s\<lparr>m_workers := m_workers s @ [\<lparr>pc = LoopHead, joinable = True\<rparr>]\<rparr>))
      else Some s)"
  by pat_completeness auto
termination
  by (relation "measure (\<lambda>(i, threadCount, s). threadCount - i)") auto

declare spawn_workers.simps [simp del]

text \<open>\<^verbatim>\<open>void ThreadPool::impl::Init(size_t threadCount)\<close>\<close>

definition Init :: "nat \<Rightarrow> 'r pool \<Rightarrow> 'r pool option" where
  "Init threadCount s =
     spawn_workers 0 threadCount
       (s\<lparr>m_jobsByPriority :=
            assign_empty Critical (assign_empty High (assign_empty Normal (m_jobsByPriority s)))\<rparr>)"

text \<open>
  \<^verbatim>\<open>ThreadPool::ThreadPool(size_t threadCount)\<close>. The default argument of the
  declaration is \<^verbatim>\<open>std::thread::hardware_concurrency()\<close>, a value of the platform that
  may be 0.
\<close>

definition ThreadPool :: "nat \<Rightarrow> 'r pool option" where
  "ThreadPool threadCount = Init threadCount impl_new"

text \<open>\<^verbatim>\<open>m_workers.size()\<close>, the number of threads that have been spawned.\<close>

definition worker_count :: "'r pool \<Rightarrow> nat" where
  "worker_count s = length (m_workers s)"

text \<open>
  The constructor called without an argument, on a platform whose
  \<^verbatim>\<open>std::thread::hardware_concurrency()\<close> is \<open>hardware_concurrency\<close>.
\<close>

definition ThreadPool_default :: "nat \<Rightarrow> 'r pool option" where
  "ThreadPool_default hardware_concurrency = ThreadPool hardware_concurrency"

section \<open>The worker thread\<close>

text \<open>
  The predicate passed to \<^verbatim>\<open>m_cvSleepCtrl.wait\<close>:
  \<^verbatim>\<open>if (false == m_running) { return true; }
  ... return !allQueuesEmpty;\<close>
\<close>

definition wait_predicate :: "'r pool \<Rightarrow> bool" where
  "wait_predicate s =
     (if False = m_running s then True
      else \<not> all_queues_empty True (m_jobsByPriority s))"

text \<open>
  \<^verbatim>\<open>(*job)()\<close> on the packaged task at address \<open>a\<close>: the stored task runs and its return
  value or the exception it throws is stored in the shared state; no exception leaves the
  call. A task whose shared state is already set throws \<^verbatim>\<open>std::future_error\<close>. The
  result is the exception that leaves the call, if any, and the new state. (A target
  always points to a live task, since it shares ownership of it; an address outside the
  heap is treated like a failed call.)
\<close>

definition invoke_target :: "target \<Rightarrow> 'r pool \<Rightarrow> exception option \<times> 'r pool" where
  "invoke_target t s =
     (case t of InvokeTask a \<Rightarrow>
        (if a < length (heap s) then
           (case shared_state (heap s ! a) of
              None \<Rightarrow>
                (None, s\<lparr>heap := (heap s)[a := (heap s ! a)\<lparr>shared_state :=
                                   Some (stored_task (heap s ! a))\<rparr>]\<rparr>)
            | Some r \<Rightarrow> (Some PromiseAlreadySatisfied, s))
         else (Some PromiseAlreadySatisfied, s)))"

text \<open>
  \<^verbatim>\<open>job()\<close>, the call operator of \<^verbatim>\<open>std::function<void()>\<close>: an empty function throws
  \<^verbatim>\<open>std::bad_function_call\<close>, any other one runs its target.
\<close>

definition invoke_function :: "job_function \<Rightarrow> 'r pool \<Rightarrow> exception option \<times> 'r pool" where
  "invoke_function job s =
     (case job of None \<Rightarrow> (Some BadFunctionCall, s) | Some t \<Rightarrow> invoke_target t s)"

definition set_pc :: "nat \<Rightarrow> worker_pc \<Rightarrow> 'r pool \<Rightarrow> 'r pool" where
  "set_pc i p s = s\<lparr>m_workers := (m_workers s)[i := (m_workers s ! i)\<lparr>pc := p\<rparr>]\<rparr>"

text \<open>
  One step of worker \<open>i\<close>, the thread of \<^verbatim>\<open>m_workers[i]\<close>. \<open>None\<close>: the thread cannot
  move (it waits for the mutex or for the condition variable, or it has ended).
  The last statement of the loop body is
  \<^verbatim>\<open>if (job != nullptr) { job(); }\<close>
\<close>

definition worker_step :: "nat \<Rightarrow> 'r pool \<Rightarrow> 'r pool option" where
  "worker_step i s =
     (if i < length (m_workers s) then
        (case pc (m_workers s ! i) of
           LoopHead \<Rightarrow> Some (set_pc i (if m_running s then LockGuard else Finished) s)
         | LockGuard \<Rightarrow>
             (if m_guard s = None
              then Some (set_pc i WaitPredicate (s\<lparr>m_guard := Some (WorkerThread i)\<rparr>))
              else None)
         | WaitPredicate \<Rightarrow>
             (if wait_predicate s then Some (set_pc i ScanQueues s)
              else Some (set_pc i WaitBlocked (s\<lparr>m_guard := None\<rparr>)))
         | WaitBlocked \<Rightarrow> None
         | WaitReacquire \<Rightarrow>
             (if m_guard s = None
              then Some (set_pc i WaitPredicate (s\<lparr>m_guard := Some (WorkerThread i)\<rparr>))
              else None)
         | ScanQueues \<Rightarrow>
             (case dequeue_scan (m_jobsByPriority s) of
                (job, b) \<Rightarrow>
                  Some (set_pc i (RunJob job) (s\<lparr>m_jobsByPriority := b, m_guard := None\<rparr>)))
         | RunJob job \<Rightarrow>
             (if job \<noteq> None then
                (case invoke_function job s of
                   (None, s') \<Rightarrow> Some (set_pc i LoopHead s')
                 | (Some e, s') \<Rightarrow> Some (set_pc i (Terminated e) s'))
              else Some (set_pc i LoopHead s))
         | Finished \<Rightarrow> None
         | Terminated e \<Rightarrow> None)
      else None)"

text \<open>
  A thread blocked on the condition variable may wake up without a notification
  (the comment above the wait mentions spurious wakeups).
\<close>

definition spurious_wakeup :: "nat \<Rightarrow> 'r pool \<Rightarrow> 'r pool option" where
  "spurious_wakeup i s =
     (if i < length (m_workers s) \<and> pc (m_workers s ! i) = WaitBlocked
      then Some (set_pc i WaitReacquire s) else None)"

section \<open>The condition variable\<close>

definition wake :: "worker \<Rightarrow> worker" where
  "wake w = (if pc w = WaitBlocked then w\<lparr>pc := WaitReacquire\<rparr> else w)"

text \<open>\<^verbatim>\<open>m_cvSleepCtrl.notify_all()\<close>: every blocked thread is woken.\<close>

definition notify_all :: "'r pool \<Rightarrow> 'r pool" where
  "notify_all s = s\<lparr>m_workers := map wake (m_workers s)\<rparr>"

text \<open>
  \<^verbatim>\<open>m_cvSleepCtrl.notify_one()\<close>: one of the blocked threads is woken, if there is one.
  Which one is not specified: \<open>k\<close> is the thread that the condition variable picks.
  \<open>notify_one_choice\<close> says that \<open>k\<close> is a possible pick.
\<close>

definition notify_one :: "nat \<Rightarrow> 'r pool \<Rightarrow> 'r pool" where
  "notify_one k s =
     (if k < length (m_workers s)
      then s\<lparr>m_workers := (m_workers s)[k := wake (m_workers s ! k)]\<rparr> else s)"

definition blocked_workers :: "'r pool \<Rightarrow> nat list" where
  "blocked_workers s =
     filter (\<lambda>i. pc (m_workers s ! i) = WaitBlocked) [0 ..< length (m_workers s)]"

definition notify_one_choice :: "nat \<Rightarrow> 'r pool \<Rightarrow> bool" where
  "notify_one_choice k s = (blocked_workers s = [] \<or> k \<in> set (blocked_workers s))"

section \<open>The calling threads\<close>

text \<open>
  \<^verbatim>\<open>Schedule(priority, f, args...)\<close> up to its call of \<^verbatim>\<open>AddJob\<close>: a packaged task for
  the bound callable is allocated (\<^verbatim>\<open>std::make_shared\<close>) and \<^verbatim>\<open>AddJob\<close> is entered with
  the lambda that invokes it. The future that \<^verbatim>\<open>Schedule\<close> returns
  (\<^verbatim>\<open>job->get_future()\<close>) reads the shared state of that task: it is the task's address,
  \<open>Schedule_future\<close>.
\<close>

definition Schedule_future :: "'r pool \<Rightarrow> nat" where
  "Schedule_future s = length (heap s)"

definition Schedule :: "nat \<Rightarrow> Priority \<Rightarrow> 'r outcome \<Rightarrow> 'r pool \<Rightarrow> 'r pool option" where
  "Schedule c priority f s =
     (if callers s c = Idle then
        Some (s\<lparr>heap := heap s @ [\<lparr>stored_task = f, shared_state = None\<rparr>],
                callers := (callers s)(c := AddJob_lock (Some (InvokeTask (Schedule_future s)))
                                              priority)\<rparr>)
      else None)"

text \<open>\<^verbatim>\<open>std::future::get\<close> when the shared state is ready, \<open>None\<close> while it is not.\<close>

definition future_ready :: "nat \<Rightarrow> 'r pool \<Rightarrow> 'r outcome option" where
  "future_ready a s = (if a < length (heap s) then shared_state (heap s ! a) else None)"

text \<open>
  The first statement of \<^verbatim>\<open>ThreadPool::impl::Shutdown\<close>: \<^verbatim>\<open>m_running = false;\<close>
\<close>

definition Shutdown :: "nat \<Rightarrow> 'r pool \<Rightarrow> 'r pool option" where
  "Shutdown c s =
     (if callers s c = Idle
      then Some (s\<lparr>m_running := False, callers := (callers s)(c := Shutdown_notify)\<rparr>)
      else None)"

definition set_caller :: "nat \<Rightarrow> caller_pc \<Rightarrow> 'r pool \<Rightarrow> 'r pool" where
  "set_caller c p s = s\<lparr>callers := (callers s)(c := p)\<rparr>"

text \<open>
  One step of calling thread \<open>c\<close> inside \<^verbatim>\<open>AddJob\<close> or \<^verbatim>\<open>Shutdown\<close>.
  \<^verbatim>\<open>AddJob\<close>: lock the mutex; emplace the job; \<^verbatim>\<open>notify_one\<close>; the lock \<^verbatim>\<open>ul\<close> is
  destroyed at the end of the function, which unlocks the mutex.
  \<^verbatim>\<open>Shutdown\<close>, after the flag is cleared: \<^verbatim>\<open>notify_all\<close>; then for each worker in turn,
  \<^verbatim>\<open>if (worker.joinable()) { worker.join(); }\<close>, where the join returns once the thread
  has finished.
\<close>

definition caller_step :: "nat \<Rightarrow> nat \<Rightarrow> 'r pool \<Rightarrow> 'r pool option" where
  "caller_step c k s =
     (case callers s c of
        Idle \<Rightarrow> None
      | AddJob_lock job priority \<Rightarrow>
          (if m_guard s = None
           then Some (set_caller c (AddJob_emplace job priority)
                        (s\<lparr>m_guard := Some (CallerThread c)\<rparr>))
           else None)
      | AddJob_emplace job priority \<Rightarrow>
          Some (set_caller c AddJob_notify
                  (s\<lparr>m_jobsByPriority := emplace priority job (m_jobsByPriority s)\<rparr>))
      | AddJob_notify \<Rightarrow>
          (if notify_one_choice k s
           then Some (set_caller c AddJob_unlock (notify_one k s))
           else None)
      | AddJob_unlock \<Rightarrow> Some (set_caller c Idle (s\<lparr>m_guard := None\<rparr>))
      | Shutdown_notify \<Rightarrow> Some (set_caller c (Shutdown_join 0) (notify_all s))
      | Shutdown_join i \<Rightarrow>
          (if i < length (m_workers s) then
             (if joinable (m_workers s ! i) then
                (if pc (m_workers s ! i) = Finished
                 then Some (set_caller c (Shutdown_join (i + 1))
                              (s\<lparr>m_workers := (m_workers s)[i := (m_workers s ! i)\<lparr>joinable := False\<rparr>]\<rparr>))
                 else None)
              else Some (set_caller c (Shutdown_join (i + 1)) s))
           else Some (set_caller c Idle s)))"

section \<open>Interleavings\<close>

text \<open>
  The threads move one step at a time, in any order. \<open>CallerStep c k\<close> is a step of
  calling thread \<open>c\<close>, with \<open>k\<close> the pick of the condition variable when the step is a
  \<^verbatim>\<open>notify_one\<close>. Every step reads and writes the members as a whole: the plain
  \<^verbatim>\<open>bool m_running\<close>, which \<^verbatim>\<open>Shutdown\<close> writes and the loop test reads without the
  mutex, is taken to behave like the other members, so that a read sees the last write.
  What a job does while it runs is one step as well.
\<close>

datatype 'r action =
  WorkerStep nat
| SpuriousWakeup nat
| CallSchedule nat Priority "'r outcome"
| CallShutdown nat
| CallerStep nat nat

fun exec :: "'r action \<Rightarrow> 'r pool \<Rightarrow> 'r pool option" where
  "exec (WorkerStep i) s = worker_step i s"
| "exec (SpuriousWakeup i) s = spurious_wakeup i s"
| "exec (CallSchedule c priority f) s = Schedule c priority f s"
| "exec (CallShutdown c) s = Shutdown c s"
| "exec (CallerStep c k) s = caller_step c k s"

fun run :: "'r action list \<Rightarrow> 'r pool \<Rightarrow> 'r pool option" where
  "run [] s = Some s"
| "run (a # as) s = (case exec a s of None \<Rightarrow> None | Some s' \<Rightarrow> run as s')"

inductive reachable :: "'r pool \<Rightarrow> bool" where
  reachable_init: "ThreadPool threadCount = Some s \<Longrightarrow> reachable s"
| reachable_step: "reachable s \<Longrightarrow> exec a s = Some s' \<Longrightarrow> reachable s'"

section \<open>Predicates on states\<close>

text \<open>The bank holds exactly one queue for each priority, in descending order.\<close>

definition three_queues :: "bank \<Rightarrow> bool" where
  "three_queues b = (map fst b = [Critical, High, Normal])"

text \<open>
  The program points between locking and unlocking \<^verbatim>\<open>m_guard\<close>: for a worker, from the
  construction of \<^verbatim>\<open>ul\<close> to the end of the block (except while it is blocked inside the
  wait); for a caller of \<^verbatim>\<open>AddJob\<close>, from the construction of \<^verbatim>\<open>ul\<close> to its
  destruction.
\<close>

fun worker_in_critical_section :: "worker_pc \<Rightarrow> bool" where
  "worker_in_critical_section WaitPredicate = True"
| "worker_in_critical_section ScanQueues = True"
| "worker_in_critical_section p = False"

fun caller_in_critical_section :: "caller_pc \<Rightarrow> bool" where
  "caller_in_critical_section (AddJob_emplace job priority) = True"
| "caller_in_critical_section AddJob_notify = True"
| "caller_in_critical_section AddJob_unlock = True"
| "caller_in_critical_section p = False"

fun in_critical_section :: "'r pool \<Rightarrow> thread_id \<Rightarrow> bool" where
  "in_critical_section s (WorkerThread i) =
     (i < length (m_workers s) \<and> worker_in_critical_section (pc (m_workers s ! i)))"
| "in_critical_section s (CallerThread c) = caller_in_critical_section (callers s c)"

definition mutual_exclusion :: "'r pool \<Rightarrow> bool" where
  "mutual_exclusion s = (\<forall>t. in_critical_section s t = (m_guard s = Some t))"

text \<open>The jobs that \<open>n\<close> successive dequeue scans take out of a bank, in order.\<close>

fun drain :: "nat \<Rightarrow> bank \<Rightarrow> job_function list \<times> bank" where
  "drain 0 b = ([], b)"
| "drain (Suc n) b =
     (case dequeue_scan b of (job, b') \<Rightarrow>
        (case drain n b' of (jobs, b'') \<Rightarrow> (job # jobs, b'')))"

text \<open>
  The state that a completed call of \<^verbatim>\<open>Shutdown\<close> leaves: the flag is false and every
  worker thread has finished and has been joined.
\<close>

definition shutdown_completed :: "'r pool \<Rightarrow> bool" where
  "shutdown_completed s =
     (\<not> m_running s \<and> list_all (\<lambda>w. pc w = Finished \<and> \<not> joinable w) (m_workers s))"

text \<open>
  The steps of one whole call of \<^verbatim>\<open>Shutdown\<close> by thread \<open>c\<close>: the flag,
  \<^verbatim>\<open>notify_all\<close>, one round of the loop for each worker, and the end of the loop.
\<close>

definition Shutdown_call :: "nat \<Rightarrow> 'r pool \<Rightarrow> 'r action list" where
  "Shutdown_call c s = CallShutdown c # replicate (length (m_workers s) + 2) (CallerStep c 0)"

text \<open>
  What a thread inside \<^verbatim>\<open>Shutdown\<close> has achieved so far: the flag is false, and in the
  round for worker \<open>i\<close> of the loop every worker before \<open>i\<close> has been joined.
\<close>

fun join_progress :: "'r pool \<Rightarrow> caller_pc \<Rightarrow> bool" where
  "join_progress s Shutdown_notify = (\<not> m_running s)"
| "join_progress s (Shutdown_join i) =
     (\<not> m_running s \<and> list_all (\<lambda>w. \<not> joinable w) (take i (m_workers s)))"
| "join_progress s p = True"

text \<open>A worker that has been joined had finished.\<close>

definition joined_finished :: "'r pool \<Rightarrow> bool" where
  "joined_finished s = list_all (\<lambda>w. \<not> joinable w \<longrightarrow> pc w = Finished) (m_workers s)"

text \<open>
  The job that a thread holds outside the bank: a worker between the scan and the call
  of the job, a caller of \<^verbatim>\<open>AddJob\<close> until it has emplaced its argument.
\<close>

fun worker_job :: "worker_pc \<Rightarrow> job_function" where
  "worker_job (RunJob job) = job"
| "worker_job p = None"

fun caller_job :: "caller_pc \<Rightarrow> job_function" where
  "caller_job (AddJob_lock job priority) = job"
| "caller_job (AddJob_emplace job priority) = job"
| "caller_job p = None"

definition bank_jobs :: "bank \<Rightarrow> job_function list" where
  "bank_jobs b = concat (map snd b)"

definition worker_jobs :: "'r pool \<Rightarrow> job_function list" where
  "worker_jobs s = map (\<lambda>w. worker_job (pc w)) (m_workers s)"

text \<open>How often the job that invokes task \<open>a\<close> is queued in the bank or held by a worker.\<close>

definition pending_count :: "'r pool \<Rightarrow> nat \<Rightarrow> nat" where
  "pending_count s a =
     count_list (bank_jobs (m_jobsByPriority s)) (Some (InvokeTask a)) +
     count_list (worker_jobs s) (Some (InvokeTask a))"

text \<open>The callers of \<^verbatim>\<open>AddJob\<close> that hold the job that invokes task \<open>a\<close>.\<close>

definition holders :: "'r pool \<Rightarrow> nat \<Rightarrow> nat set" where
  "holders s a = {c. caller_job (callers s c) = Some (InvokeTask a)}"

definition unexecuted :: "'r pool \<Rightarrow> nat \<Rightarrow> bool" where
  "unexecuted s a = (a < length (heap s) \<and> shared_state (heap s ! a) = None)"

text \<open>
  The job of a task exists at most once (in the hands of one caller, in one place of
  one queue, or in the hands of one worker), and as long as it exists the task has not
  been invoked.
\<close>

definition task_pending_once :: "'r pool \<Rightarrow> nat \<Rightarrow> bool" where
  "task_pending_once s a =
     (pending_count s a \<le> 1 \<and>
      (\<forall>c \<in> holders s a. pending_count s a = 0 \<and> holders s a = {c}) \<and>
      (pending_count s a = 1 \<or> holders s a \<noteq> {} \<longrightarrow> unexecuted s a))"

section \<open>Example runs\<close>

text \<open>
  A pool with one worker. The worker goes to sleep on the empty bank; a caller schedules
  one job at Normal priority, which wakes the worker, and then calls \<^verbatim>\<open>Shutdown\<close>, which
  clears the flag; only then does the worker lock the mutex again and evaluate its
  predicate. \<open>shutdown_race_state\<close> is the state after this run.
\<close>

definition shutdown_race_trace :: "unit action list" where
  "shutdown_race_trace =
     [WorkerStep 0, WorkerStep 0, WorkerStep 0,
      CallSchedule 0 Normal (Returns ()),
      CallerStep 0 0, CallerStep 0 0, CallerStep 0 0, CallerStep 0 0,
      CallShutdown 0,
      WorkerStep 0, WorkerStep 0]"

definition shutdown_race_state :: "unit pool" where
  "shutdown_race_state =
     \<lparr>m_running = False, m_guard = Some (WorkerThread 0),
      m_workers = [\<lparr>pc = ScanQueues, joinable = True\<rparr>],
      m_jobsByPriority = [(Critical, []), (High, []), (Normal, [Some (InvokeTask 0)])],
      callers = (\<lambda>c. Idle)(0 := Shutdown_notify),
      heap = [\<lparr>stored_task = Returns (), shared_state = None\<rparr>]\<rparr>"

text \<open>
  A pool with one worker and no job: the worker has passed the test of its loop when a
  caller calls \<^verbatim>\<open>Shutdown\<close>; the worker then locks the mutex and its predicate holds.
\<close>

definition idle_shutdown_trace :: "unit action list" where
  "idle_shutdown_trace = [WorkerStep 0, CallShutdown 0, WorkerStep 0, WorkerStep 0]"

definition idle_shutdown_state :: "unit pool" where
  "idle_shutdown_state =
     \<lparr>m_running = False, m_guard = Some (WorkerThread 0),
      m_workers = [\<lparr>pc = ScanQueues, joinable = True\<rparr>],
      m_jobsByPriority = [(Critical, []), (High, []), (Normal, [])],
      callers = (\<lambda>c. Idle)(0 := Shutdown_notify),
      heap = []\<rparr>"

text \<open>
  A pool with one worker as construction leaves it (\<open>waiting_start\<close>), and the same pool
  once the worker has locked the mutex and is about to evaluate its predicate.
\<close>

definition waiting_start :: "unit pool" where
  "waiting_start =
     \<lparr>m_running = True, m_guard = None,
      m_workers = [\<lparr>pc = LoopHead, joinable = True\<rparr>],
      m_jobsByPriority = [(Critical, []), (High, []), (Normal, [])],
      callers = (\<lambda>c. Idle),
      heap = []\<rparr>"

definition waiting_trace :: "unit action list" where
  "waiting_trace = [WorkerStep 0, WorkerStep 0]"

definition waiting_state :: "unit pool" where
  "waiting_state =
     \<lparr>m_running = True, m_guard = Some (WorkerThread 0),
      m_workers = [\<lparr>pc = WaitPredicate, joinable = True\<rparr>],
      m_jobsByPriority = [(Critical, []), (High, []), (Normal, [])],
      callers = (\<lambda>c. Idle),
      heap = []\<rparr>"

text \<open>
  A pool with one worker on which \<^verbatim>\<open>Shutdown\<close> is called at once: the worker leaves its
  loop, the caller joins it, and the loop of \<^verbatim>\<open>Shutdown\<close> is at its end
  (\<open>joining_state\<close>); the caller's next step returns from the call (\<open>joined_state\<close>).
\<close>

definition joining_trace :: "unit action list" where
  "joining_trace = [CallShutdown 0, CallerStep 0 0, WorkerStep 0, CallerStep 0 0]"

definition joining_state :: "unit pool" where
  "joining_state =
     \<lparr>m_running = False, m_guard = None,
      m_workers = [\<lparr>pc = Finished, joinable = False\<rparr>],
      m_jobsByPriority = [(Critical, []), (High, []), (Normal, [])],
      callers = (\<lambda>c. Idle)(0 := Shutdown_join 1),
      heap = []\<rparr>"

definition joined_state :: "unit pool" where
  "joined_state =
     \<lparr>m_running = False, m_guard = None,
      m_workers = [\<lparr>pc = Finished, joinable = False\<rparr>],
      m_jobsByPriority = [(Critical, []), (High, []), (Normal, [])],
      callers = (\<lambda>c. Idle),
      heap = []\<rparr>"

text \<open>
  A pool with one worker that sleeps on the empty bank, and a caller inside
  \<^verbatim>\<open>AddJob\<close> that has locked the mutex, emplaced its job and called \<^verbatim>\<open>notify_one\<close>, but
  has not yet reached the end of the function.
\<close>

definition notified_trace :: "unit action list" where
  "notified_trace =
     [WorkerStep 0, WorkerStep 0, WorkerStep 0,
      CallSchedule 0 Normal (Returns ()),
      CallerStep 0 0, CallerStep 0 0, CallerStep 0 0]"

definition notified_state :: "unit pool" where
  "notified_state =
     \<lparr>m_running = True, m_guard = Some (CallerThread 0),
      m_workers = [\<lparr>pc = WaitReacquire, joinable = True\<rparr>],
      m_jobsByPriority = [(Critical, []), (High, []), (Normal, [Some (InvokeTask 0)])],
      callers = (\<lambda>c. Idle)(0 := AddJob_unlock),
      heap = [\<lparr>stored_task = Returns (), shared_state = None\<rparr>]\<rparr>"

text \<open>
  A pool with two workers, both asleep on the empty bank, and a caller that has entered
  \<^verbatim>\<open>AddJob\<close> with a job of High priority.
\<close>

definition two_sleepers_trace :: "unit action list" where
  "two_sleepers_trace =
     [WorkerStep 0, WorkerStep 0, WorkerStep 0, WorkerStep 1, WorkerStep 1, WorkerStep 1,
      CallSchedule 0 High (Returns ())]"

definition two_sleepers_state :: "unit pool" where
  "two_sleepers_state =
     \<lparr>m_running = True, m_guard = None,
      m_workers = [\<lparr>pc = WaitBlocked, joinable = True\<rparr>, \<lparr>pc = WaitBlocked, joinable = True\<rparr>],
      m_jobsByPriority = [(Critical, []), (High, []), (Normal, [])],
      callers = (\<lambda>c. Idle)(0 := AddJob_lock (Some (InvokeTask 0)) High),
      heap = [\<lparr>stored_task = Returns (), shared_state = None\<rparr>]\<rparr>"

text \<open>
  A pool with one worker asleep on the empty bank (\<open>sleeping_state\<close>); a caller
  schedules a callable that throws (\<open>throwing_scheduled_state\<close>); the call of
  \<^verbatim>\<open>AddJob\<close> runs to its end and the woken worker takes the job out of the queue
  (\<open>throwing_state\<close>).
\<close>

definition sleeping_trace :: "unit action list" where
  "sleeping_trace = [WorkerStep 0, WorkerStep 0, WorkerStep 0]"

definition sleeping_state :: "unit pool" where
  "sleeping_state =
     \<lparr>m_running = True, m_guard = None,
      m_workers = [\<lparr>pc = WaitBlocked, joinable = True\<rparr>],
      m_jobsByPriority = [(Critical, []), (High, []), (Normal, [])],
      callers = (\<lambda>c. Idle),
      heap = []\<rparr>"

definition throwing_scheduled_state :: "unit pool" where
  "throwing_scheduled_state =
     \<lparr>m_running = True, m_guard = None,
      m_workers = [\<lparr>pc = WaitBlocked, joinable = True\<rparr>],
      m_jobsByPriority = [(Critical, []), (High, []), (Normal, [])],
      callers = (\<lambda>c. Idle)(0 := AddJob_lock (Some (InvokeTask 0)) Normal),
      heap = [\<lparr>stored_task = Throws (CallableError ''boom''), shared_state = None\<rparr>]\<rparr>"

definition throwing_trace :: "unit action list" where
  "throwing_trace =
     [CallerStep 0 0, CallerStep 0 0, CallerStep 0 0, CallerStep 0 0,
      WorkerStep 0, WorkerStep 0, WorkerStep 0]"

definition throwing_state :: "unit pool" where
  "throwing_state =
     \<lparr>m_running = True, m_guard = None,
      m_workers = [\<lparr>pc = RunJob (Some (InvokeTask 0)), joinable = True\<rparr>],
      m_jobsByPriority = [(Critical, []), (High, []), (Normal, [])],
      callers = (\<lambda>c. Idle)(0 := Idle),
      heap = [\<lparr>stored_task = Throws (CallableError ''boom''), shared_state = None\<rparr>]\<rparr>"

section \<open>Construction: the workers and the three queues\<close>

lemma spawn_workers_eq:
  "i \<le> threadCount \<Longrightarrow> threadCount \<le> INT_MAX \<Longrightarrow>
   spawn_workers i threadCount s =
     Some (s\<lparr>m_workers := m_workers s @ replicate (threadCount - i) \<lparr>pc = LoopHead, joinable = True\<rparr>\<rparr>)"
proof (induction i threadCount s rule: spawn_workers.induct)
  case (1 i threadCount s)
  show ?case
  proof (cases "i < threadCount")
    case True
    then have ne: "i \<noteq> INT_MAX" using "1.prems" by simp
    have r: "replicate (threadCount - i) x = x # replicate (threadCount - (i + 1)) x" for x :: worker
      using True by (simp add: Suc_diff_Suc flip: replicate_Suc)
    from True ne "1.IH" "1.prems" show ?thesis
      by (subst spawn_workers.simps) (simp add: r)
  next
    case False
    then show ?thesis using "1.prems"
      by (subst spawn_workers.simps) simp
  qed
qed

lemma spawn_workers_overflow:
  "i \<le> INT_MAX \<Longrightarrow> INT_MAX < threadCount \<Longrightarrow> spawn_workers i threadCount s = None"
proof (induction i threadCount s rule: spawn_workers.induct)
  case (1 i threadCount s)
  show ?case
  proof (cases "i = INT_MAX")
    case True
    then show ?thesis using "1.prems" by (subst spawn_workers.simps) simp
  next
    case False
    then show ?thesis using "1.prems" "1.IH"
      by (subst spawn_workers.simps) simp
  qed
qed

lemma Init_bank:
  "assign_empty Critical (assign_empty High (assign_empty Normal [])) =
     [(Critical, []), (High, []), (Normal, [])]"
  by (simp add: assign_empty_def greater_def)

lemma ThreadPool_eq:
  "threadCount \<le> INT_MAX \<Longrightarrow>
   ThreadPool threadCount =
     Some \<lparr>m_running = True, m_guard = None,
           m_workers = replicate threadCount \<lparr>pc = LoopHead, joinable = True\<rparr>,
           m_jobsByPriority = [(Critical, []), (High, []), (Normal, [])],
           callers = (\<lambda>c. Idle), heap = []\<rparr>"
  by (simp add: ThreadPool_def Init_def impl_new_def Init_bank spawn_workers_eq)

lemma ThreadPool_overflow: "INT_MAX < threadCount \<Longrightarrow> ThreadPool threadCount = None"
  by (simp add: ThreadPool_def Init_def spawn_workers_overflow)

lemma ThreadPool_Some:
  assumes "ThreadPool threadCount = Some s"
  shows "s = \<lparr>m_running = True, m_guard = None,
           m_workers = replicate threadCount \<lparr>pc = LoopHead, joinable = True\<rparr>,
           m_jobsByPriority = [(Critical, []), (High, []), (Normal, [])],
           callers = (\<lambda>c. Idle), heap = []\<rparr>"
proof (cases "threadCount \<le> INT_MAX")
  case True
  then show ?thesis using assms by (simp add: ThreadPool_eq)
next
  case False
  then show ?thesis using assms by (simp add: ThreadPool_overflow)
qed

lemma ThreadPool_0:
  "ThreadPool 0 =
     Some \<lparr>m_running = True, m_guard = None, m_workers = [],
           m_jobsByPriority = [(Critical, []), (High, []), (Normal, [])],
           callers = (\<lambda>c. Idle), heap = []\<rparr>"
  by (simp add: ThreadPool_eq)

lemma ThreadPool_Suc_0:
  "ThreadPool (Suc 0) =
     Some \<lparr>m_running = True, m_guard = None,
           m_workers = [\<lparr>pc = LoopHead, joinable = True\<rparr>],
           m_jobsByPriority = [(Critical, []), (High, []), (Normal, [])],
           callers = (\<lambda>c. Idle), heap = []\<rparr>"
  by (simp add: ThreadPool_eq INT_MAX_def)

section \<open>The bank\<close>

lemma map_subscript_three_queues: "three_queues b \<Longrightarrow> map_subscript p b = b"
  by (cases p) (auto simp: three_queues_def map_eq_Cons_conv greater_def)

lemma map_fst_map_apply: "map fst (map_apply p f b) = map fst b"
  by (induction p f b rule: map_apply.induct) auto

lemma three_queues_shape:
  "three_queues b = (\<exists>qc qh qn. b = [(Critical, qc), (High, qh), (Normal, qn)])"
  by (auto simp: three_queues_def map_eq_Cons_conv)

lemma emplace_three_queues:
  "three_queues b \<Longrightarrow> emplace p job b = map_apply p (\<lambda>q. q @ [job]) b"
  by (simp add: emplace_def map_subscript_three_queues)

lemma three_queues_emplace: "three_queues b \<Longrightarrow> three_queues (emplace p job b)"
  by (simp add: emplace_three_queues) (simp add: three_queues_def map_fst_map_apply)

lemma map_at_map_apply:
  "map_at p' (map_apply p f b) = (if p' = p then map_option f (map_at p b) else map_at p' b)"
  by (induction p f b rule: map_apply.induct) auto

lemma map_at_emplace:
  "three_queues b \<Longrightarrow>
   map_at p' (emplace p job b) =
     (if p' = p then map_option (\<lambda>q. q @ [job]) (map_at p b) else map_at p' b)"
  by (simp add: emplace_three_queues map_at_map_apply)

lemma map_at_emplace_twice:
  assumes "three_queues b"
  shows "map_at p (emplace p j2 (emplace p j1 b)) = map_option (\<lambda>q. q @ [j1, j2]) (map_at p b)"
proof -
  have "map_at p (emplace p j2 (emplace p j1 b)) =
      map_option (\<lambda>q. q @ [j2]) (map_option (\<lambda>q. q @ [j1]) (map_at p b))"
    using assms by (simp add: map_at_emplace three_queues_emplace)
  then show ?thesis by (simp add: option.map_comp comp_def)
qed

lemma map_fst_dequeue_scan: "map fst (snd (dequeue_scan b)) = map fst b"
  by (induction b rule: dequeue_scan.induct) (auto split: prod.splits)

lemma three_queues_dequeue_scan: "three_queues b \<Longrightarrow> three_queues (snd (dequeue_scan b))"
  by (simp add: three_queues_def map_fst_dequeue_scan)

lemma all_queues_empty_iff:
  "all_queues_empty acc b = (acc \<and> (\<forall>kvp \<in> set b. snd kvp = []))"
  by (induction acc b rule: all_queues_empty.induct) auto

lemma dequeue_scan_all_empty:
  "(\<forall>kvp \<in> set b. snd kvp = []) \<Longrightarrow> dequeue_scan b = (None, b)"
  by (induction b rule: dequeue_scan.induct) auto

lemma dequeue_scan_cascade:
  "dequeue_scan [(Critical, qc), (High, qh), (Normal, qn)] =
     (if qc \<noteq> [] then (hd qc, [(Critical, tl qc), (High, qh), (Normal, qn)])
      else if qh \<noteq> [] then (hd qh, [(Critical, []), (High, tl qh), (Normal, qn)])
      else if qn \<noteq> [] then (hd qn, [(Critical, []), (High, []), (Normal, tl qn)])
      else (None, [(Critical, []), (High, []), (Normal, [])]))"
  by (cases qc; cases qh; cases qn) simp_all

lemma drain_critical:
  "drain (length qc) [(Critical, qc), (High, qh), (Normal, qn)] =
     (qc, [(Critical, []), (High, qh), (Normal, qn)])"
  by (induction qc) simp_all

lemma drain_high:
  "drain (length qh) [(Critical, []), (High, qh), (Normal, qn)] =
     (qh, [(Critical, []), (High, []), (Normal, qn)])"
  by (induction qh) simp_all

lemma drain_normal:
  "drain (length qn) [(Critical, []), (High, []), (Normal, qn)] =
     (qn, [(Critical, []), (High, []), (Normal, [])])"
  by (induction qn) simp_all

lemma drain_add:
  "drain (m + n) b =
     (case drain m b of (js, b') \<Rightarrow> (case drain n b' of (js', b'') \<Rightarrow> (js @ js', b'')))"
  by (induction m arbitrary: b) (auto split: prod.splits)

lemma drain_all:
  "drain (length qc + length qh + length qn) [(Critical, qc), (High, qh), (Normal, qn)] =
     (qc @ qh @ qn, [(Critical, []), (High, []), (Normal, [])])"
  by (simp add: drain_add drain_critical drain_high drain_normal)

section \<open>Projections of the steps\<close>

lemma set_pc_simps [simp]:
  "m_running (set_pc i p s) = m_running s"
  "m_guard (set_pc i p s) = m_guard s"
  "m_jobsByPriority (set_pc i p s) = m_jobsByPriority s"
  "callers (set_pc i p s) = callers s"
  "heap (set_pc i p s) = heap s"
  "length (m_workers (set_pc i p s)) = length (m_workers s)"
  by (simp_all add: set_pc_def)

lemma set_pc_nth [simp]:
  "j < length (m_workers s) \<Longrightarrow>
   pc (m_workers (set_pc i p s) ! j) = (if j = i then p else pc (m_workers s ! j))"
  "j < length (m_workers s) \<Longrightarrow>
   joinable (m_workers (set_pc i p s) ! j) = joinable (m_workers s ! j)"
  by (cases "j = i"; simp add: set_pc_def)+

lemma set_caller_simps [simp]:
  "m_running (set_caller c p s) = m_running s"
  "m_guard (set_caller c p s) = m_guard s"
  "m_jobsByPriority (set_caller c p s) = m_jobsByPriority s"
  "m_workers (set_caller c p s) = m_workers s"
  "heap (set_caller c p s) = heap s"
  "callers (set_caller c p s) d = (if d = c then p else callers s d)"
  by (simp_all add: set_caller_def)

lemma wake_simps [simp]:
  "joinable (wake w) = joinable w"
  "pc (wake w) = (if pc w = WaitBlocked then WaitReacquire else pc w)"
  by (simp_all add: wake_def)

lemma notify_all_simps [simp]:
  "m_running (notify_all s) = m_running s"
  "m_guard (notify_all s) = m_guard s"
  "m_jobsByPriority (notify_all s) = m_jobsByPriority s"
  "callers (notify_all s) = callers s"
  "heap (notify_all s) = heap s"
  "length (m_workers (notify_all s)) = length (m_workers s)"
  by (simp_all add: notify_all_def)

lemma notify_all_nth [simp]:
  "j < length (m_workers s) \<Longrightarrow> m_workers (notify_all s) ! j = wake (m_workers s ! j)"
  by (simp add: notify_all_def)

lemma notify_one_simps [simp]:
  "m_running (notify_one k s) = m_running s"
  "m_guard (notify_one k s) = m_guard s"
  "m_jobsByPriority (notify_one k s) = m_jobsByPriority s"
  "callers (notify_one k s) = callers s"
  "heap (notify_one k s) = heap s"
  "length (m_workers (notify_one k s)) = length (m_workers s)"
  by (simp_all add: notify_one_def)

lemma notify_one_nth [simp]:
  "j < length (m_workers s) \<Longrightarrow>
   m_workers (notify_one k s) ! j = (if j = k then wake (m_workers s ! j) else m_workers s ! j)"
  by (cases "j = k") (simp_all add: notify_one_def)

lemma invoke_target_simps [simp]:
  "m_running (snd (invoke_target t s)) = m_running s"
  "m_guard (snd (invoke_target t s)) = m_guard s"
  "m_jobsByPriority (snd (invoke_target t s)) = m_jobsByPriority s"
  "callers (snd (invoke_target t s)) = callers s"
  "m_workers (snd (invoke_target t s)) = m_workers s"
  "length (heap (snd (invoke_target t s))) = length (heap s)"
  by (simp_all add: invoke_target_def split: target.splits option.splits)

lemma invoke_function_simps [simp]:
  "m_running (snd (invoke_function job s)) = m_running s"
  "m_guard (snd (invoke_function job s)) = m_guard s"
  "m_jobsByPriority (snd (invoke_function job s)) = m_jobsByPriority s"
  "callers (snd (invoke_function job s)) = callers s"
  "m_workers (snd (invoke_function job s)) = m_workers s"
  "length (heap (snd (invoke_function job s))) = length (heap s)"
  by (simp_all add: invoke_function_def split: option.splits)

section \<open>Cases of a step\<close>

lemma worker_step_cases [consumes 1, case_names LoopHead LockGuard WaitTrue WaitFalse WaitReacquire ScanQueues RunJob RunJobThrows SkipJob]:
  assumes "worker_step i s = Some s'"
  obtains
    "i < length (m_workers s)" "pc (m_workers s ! i) = LoopHead"
      "s' = set_pc i (if m_running s then LockGuard else Finished) s"
  | "i < length (m_workers s)" "pc (m_workers s ! i) = LockGuard" "m_guard s = None"
      "s' = set_pc i WaitPredicate (s\<lparr>m_guard := Some (WorkerThread i)\<rparr>)"
  | "i < length (m_workers s)" "pc (m_workers s ! i) = WaitPredicate" "wait_predicate s"
      "s' = set_pc i ScanQueues s"
  | "i < length (m_workers s)" "pc (m_workers s ! i) = WaitPredicate" "\<not> wait_predicate s"
      "s' = set_pc i WaitBlocked (s\<lparr>m_guard := None\<rparr>)"
  | "i < length (m_workers s)" "pc (m_workers s ! i) = WaitReacquire" "m_guard s = None"
      "s' = set_pc i WaitPredicate (s\<lparr>m_guard := Some (WorkerThread i)\<rparr>)"
  | "i < length (m_workers s)" "pc (m_workers s ! i) = ScanQueues"
      "s' = set_pc i (RunJob (fst (dequeue_scan (m_jobsByPriority s))))
              (s\<lparr>m_jobsByPriority := snd (dequeue_scan (m_jobsByPriority s)), m_guard := None\<rparr>)"
  | job where "i < length (m_workers s)" "pc (m_workers s ! i) = RunJob job" "job \<noteq> None"
      "fst (invoke_function job s) = None"
      "s' = set_pc i LoopHead (snd (invoke_function job s))"
  | job e where "i < length (m_workers s)" "pc (m_workers s ! i) = RunJob job" "job \<noteq> None"
      "fst (invoke_function job s) = Some e"
      "s' = set_pc i (Terminated e) (snd (invoke_function job s))"
  | "i < length (m_workers s)" "pc (m_workers s ! i) = RunJob None"
      "s' = set_pc i LoopHead s"
  using assms
  by (auto simp: worker_step_def split: if_splits worker_pc.splits prod.splits option.splits)

lemma caller_step_cases [consumes 1, case_names Lock Emplace Notify Unlock NotifyAll Join Joined JoinEnd]:
  assumes "caller_step c k s = Some s'"
  obtains
    job priority where "callers s c = AddJob_lock job priority" "m_guard s = None"
      "s' = set_caller c (AddJob_emplace job priority) (s\<lparr>m_guard := Some (CallerThread c)\<rparr>)"
  | job priority where "callers s c = AddJob_emplace job priority"
      "s' = set_caller c AddJob_notify
              (s\<lparr>m_jobsByPriority := emplace priority job (m_jobsByPriority s)\<rparr>)"
  | "callers s c = AddJob_notify" "notify_one_choice k s"
      "s' = set_caller c AddJob_unlock (notify_one k s)"
  | "callers s c = AddJob_unlock" "s' = set_caller c Idle (s\<lparr>m_guard := None\<rparr>)"
  | "callers s c = Shutdown_notify" "s' = set_caller c (Shutdown_join 0) (notify_all s)"
  | i where "callers s c = Shutdown_join i" "i < length (m_workers s)"
      "joinable (m_workers s ! i)" "pc (m_workers s ! i) = Finished"
      "s' = set_caller c (Shutdown_join (i + 1))
              (s\<lparr>m_workers := (m_workers s)[i := (m_workers s ! i)\<lparr>joinable := False\<rparr>]\<rparr>)"
  | i where "callers s c = Shutdown_join i" "i < length (m_workers s)"
      "\<not> joinable (m_workers s ! i)" "s' = set_caller c (Shutdown_join (i + 1)) s"
  | i where "callers s c = Shutdown_join i" "\<not> i < length (m_workers s)"
      "s' = set_caller c Idle s"
  using assms
  by (auto simp: caller_step_def split: if_splits caller_pc.splits)

section \<open>Invariants of the reachable states\<close>

lemma reachable_run:
  "reachable s \<Longrightarrow> run as s = Some s' \<Longrightarrow> reachable s'"
  by (induction as arbitrary: s) (auto split: option.splits intro: reachable_step)

lemma Schedule_cases [consumes 1]:
  assumes "Schedule c priority f s = Some s'"
  obtains "callers s c = Idle"
    "s' = set_caller c (AddJob_lock (Some (InvokeTask (length (heap s)))) priority)
            (s\<lparr>heap := heap s @ [\<lparr>stored_task = f, shared_state = None\<rparr>]\<rparr>)"
  using assms by (auto simp: Schedule_def Schedule_future_def set_caller_def split: if_splits)

lemma Shutdown_cases [consumes 1]:
  assumes "Shutdown c s = Some s'"
  obtains "callers s c = Idle" "s' = set_caller c Shutdown_notify (s\<lparr>m_running := False\<rparr>)"
  using assms by (auto simp: Shutdown_def set_caller_def split: if_splits)

lemma spurious_wakeup_cases [consumes 1]:
  assumes "spurious_wakeup i s = Some s'"
  obtains "i < length (m_workers s)" "pc (m_workers s ! i) = WaitBlocked"
    "s' = set_pc i WaitReacquire s"
  using assms by (auto simp: spurious_wakeup_def split: if_splits)

subsection \<open>The three queues\<close>

lemma three_queues_exec:
  assumes "three_queues (m_jobsByPriority s)" and "exec a s = Some s'"
  shows "three_queues (m_jobsByPriority s')"
proof (cases a)
  case (WorkerStep i)
  with assms show ?thesis
    by (auto elim!: worker_step_cases simp: three_queues_dequeue_scan)
next
  case (SpuriousWakeup i)
  with assms show ?thesis by (auto elim!: spurious_wakeup_cases)
next
  case (CallSchedule c priority f)
  with assms show ?thesis by (auto elim!: Schedule_cases)
next
  case (CallShutdown c)
  with assms show ?thesis by (auto elim!: Shutdown_cases)
next
  case (CallerStep c k)
  with assms show ?thesis
    by (auto elim!: caller_step_cases simp: three_queues_emplace)
qed

lemma reachable_three_queues: "reachable s \<Longrightarrow> three_queues (m_jobsByPriority s)"
proof (induction rule: reachable.induct)
  case (reachable_init threadCount s)
  from ThreadPool_Some [OF this] show ?case by (simp add: three_queues_def)
next
  case (reachable_step s a s')
  then show ?case by (blast intro: three_queues_exec)
qed

subsection \<open>The flag\<close>

lemma m_running_exec:
  assumes "exec a s = Some s'" and "\<not> m_running s"
  shows "\<not> m_running s'"
proof (cases a)
  case (WorkerStep i)
  with assms show ?thesis by (auto elim!: worker_step_cases)
next
  case (SpuriousWakeup i)
  with assms show ?thesis by (auto elim!: spurious_wakeup_cases)
next
  case (CallSchedule c priority f)
  with assms show ?thesis by (auto elim!: Schedule_cases)
next
  case (CallShutdown c)
  with assms show ?thesis by (auto elim!: Shutdown_cases)
next
  case (CallerStep c k)
  with assms show ?thesis by (auto elim!: caller_step_cases)
qed

lemma m_running_run:
  "run as s = Some s' \<Longrightarrow> \<not> m_running s \<Longrightarrow> \<not> m_running s'"
  by (induction as arbitrary: s) (auto split: option.splits dest: m_running_exec)

subsection \<open>Mutual exclusion\<close>

lemma nth_update_joinable [simp]:
  "pc ((ws[i := (ws ! i)\<lparr>joinable := b\<rparr>]) ! j) = pc (ws ! j)"
proof (cases "j = i")
  case True
  then show ?thesis by (cases "i < length ws") (simp_all add: list_update_beyond)
next
  case False
  then show ?thesis by simp
qed

lemma mutual_exclusion_exec:
  assumes "mutual_exclusion s" and "exec a s = Some s'"
  shows "mutual_exclusion s'"
  unfolding mutual_exclusion_def
proof
  fix t
  have Ht: "in_critical_section s t = (m_guard s = Some t)"
    using assms(1) unfolding mutual_exclusion_def by blast
  show "in_critical_section s' t = (m_guard s' = Some t)"
  proof (cases a)
    case (WorkerStep i)
    have Hi: "in_critical_section s (WorkerThread i) = (m_guard s = Some (WorkerThread i))"
      using assms(1) unfolding mutual_exclusion_def by blast
    from WorkerStep assms(2) have "worker_step i s = Some s'" by simp
    then show ?thesis using Ht Hi
      by (cases rule: worker_step_cases; cases t) (auto split: if_splits)
  next
    case (SpuriousWakeup i)
    with assms(2) Ht show ?thesis
      by (cases t) (auto elim!: spurious_wakeup_cases split: if_splits)
  next
    case (CallSchedule c priority f)
    with assms(2) Ht show ?thesis
      by (cases t) (auto elim!: Schedule_cases split: if_splits)
  next
    case (CallShutdown c)
    with assms(2) Ht show ?thesis
      by (cases t) (auto elim!: Shutdown_cases split: if_splits)
  next
    case (CallerStep c k)
    have Hc: "in_critical_section s (CallerThread c) = (m_guard s = Some (CallerThread c))"
      using assms(1) unfolding mutual_exclusion_def by blast
    from CallerStep assms(2) have "caller_step c k s = Some s'" by simp
    then show ?thesis using Ht Hc
      by (cases rule: caller_step_cases; cases t) (auto split: if_splits)
  qed
qed

lemma reachable_mutual_exclusion: "reachable s \<Longrightarrow> mutual_exclusion s"
proof (induction rule: reachable.induct)
  case (reachable_init threadCount s)
  have "in_critical_section s t = (m_guard s = Some t)" for t
    using ThreadPool_Some [OF reachable_init] by (cases t) simp_all
  then show ?case by (simp add: mutual_exclusion_def)
next
  case (reachable_step s a s')
  then show ?case by (blast intro: mutual_exclusion_exec)
qed

subsection \<open>No empty function is ever invoked\<close>

lemma invoke_function_not_bad_call:
  "job \<noteq> None \<Longrightarrow> fst (invoke_function job s) \<noteq> Some BadFunctionCall"
  by (auto simp: invoke_function_def invoke_target_def split: option.splits target.splits)

lemma no_bad_call_exec:
  assumes "\<forall>j < length (m_workers s). pc (m_workers s ! j) \<noteq> Terminated BadFunctionCall"
    and "exec a s = Some s'"
  shows "\<forall>j < length (m_workers s'). pc (m_workers s' ! j) \<noteq> Terminated BadFunctionCall"
proof (intro allI impI)
  fix j assume j: "j < length (m_workers s')"
  have len: "length (m_workers s') = length (m_workers s)"
    using assms(2)
    by (cases a)
       (auto elim!: worker_step_cases spurious_wakeup_cases Schedule_cases Shutdown_cases
          caller_step_cases)
  have Hj: "pc (m_workers s ! j) \<noteq> Terminated BadFunctionCall"
    using assms(1) j len by simp
  show "pc (m_workers s' ! j) \<noteq> Terminated BadFunctionCall"
  proof (cases a)
    case (WorkerStep i)
    with assms(2) have "worker_step i s = Some s'" by simp
    then show ?thesis using Hj j len
      by (cases rule: worker_step_cases)
         (auto split: if_splits simp: invoke_function_not_bad_call)
  next
    case (SpuriousWakeup i)
    with assms(2) Hj j len show ?thesis
      by (auto elim!: spurious_wakeup_cases split: if_splits)
  next
    case (CallSchedule c priority f)
    with assms(2) Hj j len show ?thesis by (auto elim!: Schedule_cases)
  next
    case (CallShutdown c)
    with assms(2) Hj j len show ?thesis by (auto elim!: Shutdown_cases)
  next
    case (CallerStep c k)
    with assms(2) have "caller_step c k s = Some s'" by simp
    then show ?thesis using Hj j len
      by (cases rule: caller_step_cases) (auto split: if_splits)
  qed
qed

lemma reachable_no_bad_call:
  "reachable s \<Longrightarrow> \<forall>j < length (m_workers s). pc (m_workers s ! j) \<noteq> Terminated BadFunctionCall"
proof (induction rule: reachable.induct)
  case (reachable_init threadCount s)
  from ThreadPool_Some [OF this] show ?case by simp
next
  case (reachable_step s a s')
  from reachable_step.IH reachable_step.hyps(2) show ?case by (rule no_bad_call_exec)
qed

section \<open>Construction spawns the requested number of workers\<close>

text \<open>
  Claim C2, as the code has it. The constructor passes its argument to \<^verbatim>\<open>Init\<close>
  unchanged and \<^verbatim>\<open>Init\<close> spawns one thread per loop round: for every thread count up to
  \<open>INT_MAX\<close> the pool has exactly that many workers, each at the head of its loop and
  joinable. Nothing raises a count of 0.
\<close>

theorem ThreadPool_spawns_threadCount:
  "threadCount \<le> INT_MAX \<Longrightarrow>
   map_option worker_count (ThreadPool threadCount :: 'r pool option) = Some threadCount \<and>
   map_option m_workers (ThreadPool threadCount :: 'r pool option) =
     Some (replicate threadCount \<lparr>pc = LoopHead, joinable = True\<rparr>) \<and>
   ThreadPool_default threadCount = (ThreadPool threadCount :: 'r pool option)"
  by (simp add: ThreadPool_eq worker_count_def ThreadPool_default_def)

theorem ThreadPool_spawns_threadCount_witness:
  "(4::nat) \<le> INT_MAX \<and>
   map_option worker_count (ThreadPool 4 :: unit pool option) = Some 4 \<and>
   map_option m_workers (ThreadPool 4 :: unit pool option) =
     Some (replicate 4 \<lparr>pc = LoopHead, joinable = True\<rparr>) \<and>
   ThreadPool_default 4 = (ThreadPool 4 :: unit pool option)"
proof -
  have h: "(4::nat) \<le> INT_MAX" by (simp add: INT_MAX_def)
  show ?thesis using h ThreadPool_spawns_threadCount [OF h] by simp
qed

text \<open>
  Claim C2 as stated fails: a thread count of 0, given explicitly or as the default when
  the platform reports a hardware parallelism of 0, yields a pool with no worker.
\<close>

theorem ThreadPool_zero_workers_counterexample:
  "map_option worker_count (ThreadPool 0 :: unit pool option) = Some 0 \<and>
   map_option worker_count (ThreadPool_default 0 :: unit pool option) = Some 0"
  by (simp add: ThreadPool_0 worker_count_def ThreadPool_default_def)

section \<open>The example runs\<close>

lemmas step_defs =
  worker_step_def spurious_wakeup_def set_pc_def Schedule_def Schedule_future_def
  caller_step_def set_caller_def emplace_def greater_def notify_one_choice_def
  notify_one_def notify_all_def blocked_workers_def wake_def Shutdown_def
  wait_predicate_def invoke_function_def invoke_target_def

lemma reachable_trace:
  "Option.bind (ThreadPool threadCount) (run as) = Some s \<Longrightarrow> reachable s"
  by (auto simp: bind_eq_Some_conv intro: reachable_run reachable_init)

lemma shutdown_race_run:
  "Option.bind (ThreadPool (Suc 0)) (run shutdown_race_trace) = Some shutdown_race_state"
  by (simp add: ThreadPool_Suc_0 shutdown_race_trace_def shutdown_race_state_def step_defs)

lemma idle_shutdown_run:
  "Option.bind (ThreadPool (Suc 0)) (run idle_shutdown_trace) = Some idle_shutdown_state"
  by (simp add: ThreadPool_Suc_0 idle_shutdown_trace_def idle_shutdown_state_def step_defs)

lemma waiting_run:
  "Option.bind (ThreadPool (Suc 0)) (run waiting_trace) = Some waiting_state"
  by (simp add: ThreadPool_Suc_0 waiting_trace_def waiting_state_def step_defs)

lemma joining_run:
  "Option.bind (ThreadPool (Suc 0)) (run joining_trace) = Some joining_state"
  by (simp add: ThreadPool_Suc_0 joining_trace_def joining_state_def step_defs)

lemma ThreadPool_2:
  "ThreadPool (Suc (Suc 0)) =
     Some \<lparr>m_running = True, m_guard = None,
           m_workers = [\<lparr>pc = LoopHead, joinable = True\<rparr>, \<lparr>pc = LoopHead, joinable = True\<rparr>],
           m_jobsByPriority = [(Critical, []), (High, []), (Normal, [])],
           callers = (\<lambda>c. Idle), heap = []\<rparr>"
  by (simp add: ThreadPool_eq INT_MAX_def)

lemma notified_run:
  "Option.bind (ThreadPool (Suc 0)) (run notified_trace) = Some notified_state"
  by (simp add: ThreadPool_Suc_0 notified_trace_def notified_state_def step_defs)

lemma two_sleepers_run:
  "Option.bind (ThreadPool (Suc (Suc 0))) (run two_sleepers_trace) = Some two_sleepers_state"
  by (simp add: ThreadPool_2 two_sleepers_trace_def two_sleepers_state_def step_defs)

lemma sleeping_run:
  "Option.bind (ThreadPool (Suc 0)) (run sleeping_trace) = Some sleeping_state"
  by (simp add: ThreadPool_Suc_0 sleeping_trace_def sleeping_state_def step_defs)

lemma reachable_shutdown_race_state: "reachable shutdown_race_state"
  using shutdown_race_run by (rule reachable_trace)

lemma reachable_idle_shutdown_state: "reachable idle_shutdown_state"
  using idle_shutdown_run by (rule reachable_trace)

lemma map_at_three_queues:
  "map_at Critical [(Critical, qc), (High, qh), (Normal, qn)] = Some qc"
  "map_at High [(Critical, qc), (High, qh), (Normal, qn)] = Some qh"
  "map_at Normal [(Critical, qc), (High, qh), (Normal, qn)] = Some qn"
  by simp_all

section \<open>The wait predicate\<close>

text \<open>
  Claim C4. On a bank of three queues, the predicate of the wait is true exactly when
  the flag is false or one of the three queues is not empty. A worker that evaluates it
  (under the lock) goes on waiting, releasing the lock, exactly when the flag is true
  and all three queues are empty; otherwise it goes on to the scan.
\<close>

theorem wait_predicate_iff:
  assumes "three_queues (m_jobsByPriority s)"
  shows
    "(wait_predicate s \<longleftrightarrow>
        (\<not> m_running s \<or> map_at Critical (m_jobsByPriority s) \<noteq> Some [] \<or>
         map_at High (m_jobsByPriority s) \<noteq> Some [] \<or>
         map_at Normal (m_jobsByPriority s) \<noteq> Some [])) \<and>
     (i < length (m_workers s) \<and> pc (m_workers s ! i) = WaitPredicate \<longrightarrow>
        worker_step i s =
          (if m_running s \<and> map_at Critical (m_jobsByPriority s) = Some [] \<and>
              map_at High (m_jobsByPriority s) = Some [] \<and>
              map_at Normal (m_jobsByPriority s) = Some []
           then Some (set_pc i WaitBlocked (s\<lparr>m_guard := None\<rparr>))
           else Some (set_pc i ScanQueues s)))"
proof -
  from assms obtain qc qh qn where
    b: "m_jobsByPriority s = [(Critical, qc), (High, qh), (Normal, qn)]"
    by (auto simp: three_queues_shape)
  have w: "wait_predicate s \<longleftrightarrow> (\<not> m_running s \<or> qc \<noteq> [] \<or> qh \<noteq> [] \<or> qn \<noteq> [])"
    by (auto simp: wait_predicate_def all_queues_empty_iff b)
  show ?thesis
    by (simp add: worker_step_def w) (auto simp: b)
qed

theorem wait_predicate_iff_witness:
  "three_queues (m_jobsByPriority waiting_state) \<and> \<not> wait_predicate waiting_state \<and>
   m_running waiting_state \<and> pc (m_workers waiting_state ! 0) = WaitPredicate \<and>
   worker_step 0 waiting_state = Some (set_pc 0 WaitBlocked (waiting_state\<lparr>m_guard := None\<rparr>)) \<and>
   three_queues (m_jobsByPriority shutdown_race_state) \<and> wait_predicate shutdown_race_state"
  using wait_predicate_iff [of waiting_state 0] wait_predicate_iff [of shutdown_race_state 0]
  by (simp add: waiting_state_def shutdown_race_state_def three_queues_def)

section \<open>The dequeue scan\<close>

text \<open>
  Claim C1. In every reachable state, a worker that is about to scan holds the lock,
  the bank is the Critical, the High and the Normal queue in this order, and the scan
  takes the front element of the first queue that is not empty (Critical before High
  before Normal), leaving the rest in place; the worker's step is this scan followed by
  the release of the lock. Successive scans therefore take out every Critical job in
  queue order, then every High job in queue order, then every Normal job in queue
  order; and queue order is submission order, since of two jobs emplaced one after the
  other at the same priority the first stands in front of the second.
\<close>

theorem dequeue_scan_priority_order:
  assumes "reachable s" and "i < length (m_workers s)" and "pc (m_workers s ! i) = ScanQueues"
  shows "\<exists>qc qh qn.
     m_jobsByPriority s = [(Critical, qc), (High, qh), (Normal, qn)] \<and>
     m_guard s = Some (WorkerThread i) \<and>
     dequeue_scan (m_jobsByPriority s) =
       (if qc \<noteq> [] then (hd qc, [(Critical, tl qc), (High, qh), (Normal, qn)])
        else if qh \<noteq> [] then (hd qh, [(Critical, []), (High, tl qh), (Normal, qn)])
        else if qn \<noteq> [] then (hd qn, [(Critical, []), (High, []), (Normal, tl qn)])
        else (None, [(Critical, []), (High, []), (Normal, [])])) \<and>
     worker_step i s =
       Some (set_pc i (RunJob (fst (dequeue_scan (m_jobsByPriority s))))
               (s\<lparr>m_jobsByPriority := snd (dequeue_scan (m_jobsByPriority s)),
                  m_guard := None\<rparr>)) \<and>
     drain (length qc + length qh + length qn) (m_jobsByPriority s) =
       (qc @ qh @ qn, [(Critical, []), (High, []), (Normal, [])]) \<and>
     (\<forall>p j1 j2. map_at p (emplace p j2 (emplace p j1 (m_jobsByPriority s))) =
        map_option (\<lambda>q. q @ [j1, j2]) (map_at p (m_jobsByPriority s)))"
proof -
  from reachable_three_queues [OF assms(1)] obtain qc qh qn where
    b: "m_jobsByPriority s = [(Critical, qc), (High, qh), (Normal, qn)]"
    by (auto simp: three_queues_shape)
  have "in_critical_section s (WorkerThread i)"
    using assms(2,3) by simp
  then have g: "m_guard s = Some (WorkerThread i)"
    using reachable_mutual_exclusion [OF assms(1)] unfolding mutual_exclusion_def by blast
  have w: "worker_step i s =
       Some (set_pc i (RunJob (fst (dequeue_scan (m_jobsByPriority s))))
               (s\<lparr>m_jobsByPriority := snd (dequeue_scan (m_jobsByPriority s)),
                  m_guard := None\<rparr>))"
    using assms(2,3) by (simp add: worker_step_def split: prod.splits)
  have d: "drain (length qc + length qh + length qn) (m_jobsByPriority s) =
       (qc @ qh @ qn, [(Critical, []), (High, []), (Normal, [])])"
    unfolding b by (rule drain_all)
  have c: "dequeue_scan (m_jobsByPriority s) =
       (if qc \<noteq> [] then (hd qc, [(Critical, tl qc), (High, qh), (Normal, qn)])
        else if qh \<noteq> [] then (hd qh, [(Critical, []), (High, tl qh), (Normal, qn)])
        else if qn \<noteq> [] then (hd qn, [(Critical, []), (High, []), (Normal, tl qn)])
        else (None, [(Critical, []), (High, []), (Normal, [])]))"
    unfolding b by (rule dequeue_scan_cascade)
  have e: "\<forall>p j1 j2. map_at p (emplace p j2 (emplace p j1 (m_jobsByPriority s))) =
        map_option (\<lambda>q. q @ [j1, j2]) (map_at p (m_jobsByPriority s))"
    using reachable_three_queues [OF assms(1)] by (simp add: map_at_emplace_twice)
  from b g c w d e show ?thesis by blast
qed

theorem dequeue_scan_priority_order_witness:
  "reachable shutdown_race_state \<and> 0 < length (m_workers shutdown_race_state) \<and>
   pc (m_workers shutdown_race_state ! 0) = ScanQueues \<and>
   m_guard shutdown_race_state = Some (WorkerThread 0) \<and>
   dequeue_scan (m_jobsByPriority shutdown_race_state) =
     (Some (InvokeTask 0), [(Critical, []), (High, []), (Normal, [])]) \<and>
   drain 1 (m_jobsByPriority shutdown_race_state) =
     ([Some (InvokeTask 0)], [(Critical, []), (High, []), (Normal, [])])"
proof -
  have h1: "reachable shutdown_race_state" by (rule reachable_shutdown_race_state)
  have h2: "0 < length (m_workers shutdown_race_state)"
    and h3: "pc (m_workers shutdown_race_state ! 0) = ScanQueues"
    by (simp_all add: shutdown_race_state_def)
  from dequeue_scan_priority_order [OF h1 h2 h3] h1 h2 h3 show ?thesis
    by (auto simp: shutdown_race_state_def)
qed

section \<open>The guard of the job call\<close>

text \<open>
  Claim C10. In every reachable state no worker has been terminated by the exception of
  an empty function. When the scan finds all queues empty the job stays empty, and a
  worker that holds an empty job skips the call (which would throw) and returns to the
  head of its loop, leaving the rest of the state as it is.
\<close>

theorem empty_function_never_invoked:
  assumes "reachable s" and "i < length (m_workers s)"
  shows "pc (m_workers s ! i) \<noteq> Terminated BadFunctionCall \<and>
     (pc (m_workers s ! i) = ScanQueues \<and> (\<forall>kvp \<in> set (m_jobsByPriority s). snd kvp = []) \<longrightarrow>
        worker_step i s = Some (set_pc i (RunJob None) (s\<lparr>m_guard := None\<rparr>))) \<and>
     (pc (m_workers s ! i) = RunJob None \<longrightarrow>
        invoke_function None s = (Some BadFunctionCall, s) \<and>
        worker_step i s = Some (set_pc i LoopHead s))"
proof -
  have 1: "pc (m_workers s ! i) \<noteq> Terminated BadFunctionCall"
    using reachable_no_bad_call [OF assms(1)] assms(2) by blast
  have 2: "worker_step i s = Some (set_pc i (RunJob None) (s\<lparr>m_guard := None\<rparr>))"
    if "pc (m_workers s ! i) = ScanQueues" "\<forall>kvp \<in> set (m_jobsByPriority s). snd kvp = []"
    using that assms(2) by (simp add: worker_step_def dequeue_scan_all_empty)
  have 3: "worker_step i s = Some (set_pc i LoopHead s)" if "pc (m_workers s ! i) = RunJob None"
    using that assms(2) by (simp add: worker_step_def)
  have 4: "invoke_function None s = (Some BadFunctionCall, s)"
    by (simp add: invoke_function_def)
  from 1 2 3 4 show ?thesis by blast
qed

theorem empty_function_never_invoked_witness:
  "reachable idle_shutdown_state \<and> 0 < length (m_workers idle_shutdown_state) \<and>
   pc (m_workers idle_shutdown_state ! 0) = ScanQueues \<and>
   m_jobsByPriority idle_shutdown_state = [(Critical, []), (High, []), (Normal, [])] \<and>
   worker_step 0 idle_shutdown_state =
     Some (set_pc 0 (RunJob None) (idle_shutdown_state\<lparr>m_guard := None\<rparr>)) \<and>
   reachable (set_pc 0 (RunJob None) (idle_shutdown_state\<lparr>m_guard := None\<rparr>)) \<and>
   worker_step 0 (set_pc 0 (RunJob None) (idle_shutdown_state\<lparr>m_guard := None\<rparr>)) =
     Some (set_pc 0 LoopHead (set_pc 0 (RunJob None) (idle_shutdown_state\<lparr>m_guard := None\<rparr>)))"
proof -
  let ?t = "set_pc 0 (RunJob None) (idle_shutdown_state\<lparr>m_guard := None\<rparr>)"
  have h1: "reachable idle_shutdown_state" by (rule reachable_idle_shutdown_state)
  have h2: "0 < length (m_workers idle_shutdown_state)"
    by (simp add: idle_shutdown_state_def)
  have h3: "pc (m_workers idle_shutdown_state ! 0) = ScanQueues"
    and h4: "\<forall>kvp \<in> set (m_jobsByPriority idle_shutdown_state). snd kvp = []"
    by (simp_all add: idle_shutdown_state_def)
  from empty_function_never_invoked [OF h1 h2] h3 h4
  have s1: "worker_step 0 idle_shutdown_state = Some ?t" by blast
  then have "exec (WorkerStep 0) idle_shutdown_state = Some ?t" by simp
  with h1 have h5: "reachable ?t" by (rule reachable_step)
  have h6: "0 < length (m_workers ?t)" using h2 by simp
  have h7: "pc (m_workers ?t ! 0) = RunJob None" using h2 by simp
  from empty_function_never_invoked [OF h5 h6] h7
  have s2: "worker_step 0 ?t = Some (set_pc 0 LoopHead ?t)" by blast
  have h8: "m_jobsByPriority idle_shutdown_state = [(Critical, []), (High, []), (Normal, [])]"
    by (simp add: idle_shutdown_state_def)
  from h1 h2 h3 h8 s1 h5 s2 show ?thesis by blast
qed

section \<open>The three queues are an invariant\<close>

lemma map_at_total: "three_queues b \<Longrightarrow> \<exists>q. map_at p b = Some q"
  by (cases p) (auto simp: three_queues_shape)

text \<open>
  Claim C8. After construction the bank holds the empty Critical, High and Normal
  queues. Every step of every thread (a step of \<^verbatim>\<open>AddJob\<close> at any priority, the dequeue
  scan, a step of \<^verbatim>\<open>Shutdown\<close>) keeps a bank of exactly these three keys, so every
  reachable state has exactly one queue for each priority; in particular \<^verbatim>\<open>emplace\<close>
  and the scan add or remove no key.
\<close>

theorem bank_three_queues_invariant:
  "(ThreadPool threadCount = Some s0 \<longrightarrow>
      m_jobsByPriority s0 = [(Critical, []), (High, []), (Normal, [])]) \<and>
   (three_queues (m_jobsByPriority s) \<and> exec a s = Some s' \<longrightarrow>
      three_queues (m_jobsByPriority s')) \<and>
   (reachable s \<longrightarrow>
      map fst (m_jobsByPriority s) = [Critical, High, Normal] \<and>
      (\<exists>q. map_at p (m_jobsByPriority s) = Some q)) \<and>
   (three_queues b \<longrightarrow>
      map fst (emplace p job b) = map fst b \<and> map fst (snd (dequeue_scan b)) = map fst b)"
proof -
  have 1: "m_jobsByPriority s0 = [(Critical, []), (High, []), (Normal, [])]"
    if "ThreadPool threadCount = Some s0"
    using ThreadPool_Some [OF that] by simp
  have 2: "three_queues (m_jobsByPriority s')"
    if "three_queues (m_jobsByPriority s)" "exec a s = Some s'"
    using that by (rule three_queues_exec)
  have 3: "map fst (m_jobsByPriority s) = [Critical, High, Normal] \<and>
      (\<exists>q. map_at p (m_jobsByPriority s) = Some q)" if "reachable s"
    using reachable_three_queues [OF that] map_at_total [of "m_jobsByPriority s" p]
    by (simp add: three_queues_def)
  have 4: "map fst (emplace p job b) = map fst b \<and> map fst (snd (dequeue_scan b)) = map fst b"
    if "three_queues b"
    using that by (simp add: emplace_three_queues map_fst_map_apply map_fst_dequeue_scan)
  from 1 2 3 4 show ?thesis by blast
qed

theorem bank_three_queues_invariant_witness:
  "reachable shutdown_race_state \<and>
   map fst (m_jobsByPriority shutdown_race_state) = [Critical, High, Normal] \<and>
   map_at Normal (m_jobsByPriority shutdown_race_state) = Some [Some (InvokeTask 0)] \<and>
   three_queues (m_jobsByPriority shutdown_race_state) \<and>
   exec (WorkerStep 0) shutdown_race_state =
     Some (set_pc 0 (RunJob (Some (InvokeTask 0)))
        (shutdown_race_state\<lparr>m_jobsByPriority := [(Critical, []), (High, []), (Normal, [])],
           m_guard := None\<rparr>)) \<and>
   three_queues (m_jobsByPriority (set_pc 0 (RunJob (Some (InvokeTask 0)))
        (shutdown_race_state\<lparr>m_jobsByPriority := [(Critical, []), (High, []), (Normal, [])],
           m_guard := None\<rparr>))) \<and>
   map fst (emplace High None (m_jobsByPriority shutdown_race_state)) = [Critical, High, Normal]"
proof -
  let ?t = "set_pc 0 (RunJob (Some (InvokeTask 0)))
        (shutdown_race_state\<lparr>m_jobsByPriority := [(Critical, []), (High, []), (Normal, [])],
           m_guard := None\<rparr>)"
  have h1: "reachable shutdown_race_state" by (rule reachable_shutdown_race_state)
  have h2: "three_queues (m_jobsByPriority shutdown_race_state)"
    by (simp add: shutdown_race_state_def three_queues_def)
  have h3: "exec (WorkerStep 0) shutdown_race_state = Some ?t"
    by (simp add: shutdown_race_state_def worker_step_def set_pc_def)
  have h4: "map_at Normal (m_jobsByPriority shutdown_race_state) = Some [Some (InvokeTask 0)]"
    by (simp add: shutdown_race_state_def)
  note inst = bank_three_queues_invariant [where threadCount = "Suc 0"
      and ?s0.0 = waiting_start and s = shutdown_race_state
      and a = "WorkerStep 0" and s' = ?t and p = High
      and b = "m_jobsByPriority shutdown_race_state" and job = None]
  from inst h1 h2 h3 h4 show ?thesis by (simp add: three_queues_def)
qed

section \<open>The flag only falls\<close>

lemma m_running_exec_eq:
  assumes "exec a s = Some s'"
  shows "m_running s' = (m_running s \<and> (\<forall>c. a \<noteq> CallShutdown c))"
proof (cases a)
  case (WorkerStep i)
  with assms show ?thesis by (auto elim!: worker_step_cases)
next
  case (SpuriousWakeup i)
  with assms show ?thesis by (auto elim!: spurious_wakeup_cases)
next
  case (CallSchedule c priority f)
  with assms show ?thesis by (auto elim!: Schedule_cases)
next
  case (CallShutdown c)
  with assms show ?thesis by (auto elim!: Shutdown_cases)
next
  case (CallerStep c k)
  with assms show ?thesis by (auto elim!: caller_step_cases)
qed

text \<open>
  Claim C7. The flag is true in the state that construction yields. A step of any
  thread leaves the flag as it is, except the first statement of \<^verbatim>\<open>Shutdown\<close>, which
  clears it: after a step the flag is true exactly when it was true before and the
  step is not that statement. Hence once it is false it is false after any run.
\<close>

theorem m_running_monotonic:
  "(ThreadPool threadCount = Some s0 \<longrightarrow> m_running s0) \<and>
   (exec a s = Some s' \<longrightarrow> m_running s' = (m_running s \<and> (\<forall>c. a \<noteq> CallShutdown c))) \<and>
   (run as s = Some s'' \<and> \<not> m_running s \<longrightarrow> \<not> m_running s'')"
proof -
  have 1: "m_running s0" if "ThreadPool threadCount = Some s0"
    using ThreadPool_Some [OF that] by simp
  have 2: "m_running s' = (m_running s \<and> (\<forall>c. a \<noteq> CallShutdown c))" if "exec a s = Some s'"
    using that by (rule m_running_exec_eq)
  have 3: "\<not> m_running s''" if "run as s = Some s''" "\<not> m_running s"
    using that by (rule m_running_run)
  from 1 2 3 show ?thesis by blast
qed

theorem m_running_monotonic_witness:
  "ThreadPool (Suc 0) = Some waiting_start \<and> m_running waiting_start \<and>
   exec (CallShutdown 0) waiting_start = Some (set_caller 0 Shutdown_notify (waiting_start\<lparr>m_running := False\<rparr>)) \<and>
   \<not> m_running (set_caller 0 Shutdown_notify (waiting_start\<lparr>m_running := False\<rparr>)) \<and>
   run [WorkerStep 0] shutdown_race_state =
     Some (set_pc 0 (RunJob (Some (InvokeTask 0)))
        (shutdown_race_state\<lparr>m_jobsByPriority := [(Critical, []), (High, []), (Normal, [])],
           m_guard := None\<rparr>)) \<and>
   \<not> m_running shutdown_race_state \<and>
   \<not> m_running (set_pc 0 (RunJob (Some (InvokeTask 0)))
        (shutdown_race_state\<lparr>m_jobsByPriority := [(Critical, []), (High, []), (Normal, [])],
           m_guard := None\<rparr>))"
proof -
  let ?t = "set_pc 0 (RunJob (Some (InvokeTask 0)))
        (shutdown_race_state\<lparr>m_jobsByPriority := [(Critical, []), (High, []), (Normal, [])],
           m_guard := None\<rparr>)"
  let ?u = "set_caller 0 Shutdown_notify (waiting_start\<lparr>m_running := False\<rparr>)"
  have h1: "ThreadPool (Suc 0) = Some (waiting_start :: unit pool)"
    by (simp add: ThreadPool_Suc_0 waiting_start_def)
  have h2: "exec (CallShutdown 0) waiting_start = Some ?u"
    by (simp add: waiting_start_def Shutdown_def set_caller_def)
  have h3: "run [WorkerStep 0] shutdown_race_state = Some ?t"
    by (simp add: shutdown_race_state_def worker_step_def set_pc_def)
  have h4: "\<not> m_running shutdown_race_state"
    by (simp add: shutdown_race_state_def)
  note inst = m_running_monotonic [where threadCount = "Suc 0" and ?s0.0 = waiting_start
      and a = "CallShutdown 0" and s = waiting_start and s' = ?u
      and as = "[]" and s'' = waiting_start]
    m_running_monotonic [where threadCount = "Suc 0" and ?s0.0 = waiting_start
      and a = "WorkerStep 0" and s' = ?t
      and as = "[WorkerStep 0]" and s = shutdown_race_state and s'' = ?t]
  from inst h1 h2 h3 h4 show ?thesis by simp
qed

section \<open>A job taken after the flag has been cleared\<close>

text \<open>
  Claim C3, on the run \<open>shutdown_race_trace\<close>: the run is possible and ends in
  \<open>shutdown_race_state\<close>, where the flag is false, the worker is about to scan and a job
  waits in the Normal queue. The worker's next step takes this job out of the queue,
  and the step after that runs it; only then does the worker read the flag and leave
  its loop.
\<close>

theorem shutdown_race_dequeues_after_flag_cleared:
  "Option.bind (ThreadPool (Suc 0)) (run shutdown_race_trace) = Some shutdown_race_state \<and>
   m_running shutdown_race_state = False \<and>
   m_jobsByPriority shutdown_race_state =
     [(Critical, []), (High, []), (Normal, [Some (InvokeTask 0)])] \<and>
   map_option m_jobsByPriority (run [WorkerStep 0] shutdown_race_state) =
     Some [(Critical, []), (High, []), (Normal, [])] \<and>
   map_option m_workers (run [WorkerStep 0] shutdown_race_state) =
     Some [\<lparr>pc = RunJob (Some (InvokeTask 0)), joinable = True\<rparr>] \<and>
   map_option heap (run [WorkerStep 0, WorkerStep 0] shutdown_race_state) =
     Some [\<lparr>stored_task = Returns (), shared_state = Some (Returns ())\<rparr>] \<and>
   map_option m_workers (run [WorkerStep 0, WorkerStep 0, WorkerStep 0] shutdown_race_state) =
     Some [\<lparr>pc = Finished, joinable = True\<rparr>]"
  by (simp add: shutdown_race_run) (simp add: shutdown_race_state_def step_defs)

section \<open>Shutdown\<close>

lemma workers_exec:
  assumes "exec a s = Some s'"
  shows "length (m_workers s') = length (m_workers s)"
    and "j < length (m_workers s) \<Longrightarrow> joinable (m_workers s' ! j) \<Longrightarrow> joinable (m_workers s ! j)"
    and "j < length (m_workers s) \<Longrightarrow> pc (m_workers s ! j) = Finished \<Longrightarrow>
         pc (m_workers s' ! j) = Finished"
proof -
  show "length (m_workers s') = length (m_workers s)"
    using assms
    by (cases a)
       (auto elim!: worker_step_cases spurious_wakeup_cases Schedule_cases Shutdown_cases
          caller_step_cases)
  show "joinable (m_workers s ! j)"
    if "j < length (m_workers s)" "joinable (m_workers s' ! j)"
  proof (cases a)
    case (WorkerStep i)
    with assms that show ?thesis by (auto elim!: worker_step_cases)
  next
    case (SpuriousWakeup i)
    with assms that show ?thesis by (auto elim!: spurious_wakeup_cases)
  next
    case (CallSchedule c priority f)
    with assms that show ?thesis by (auto elim!: Schedule_cases)
  next
    case (CallShutdown c)
    with assms that show ?thesis by (auto elim!: Shutdown_cases)
  next
    case (CallerStep c k)
    with assms that show ?thesis
      by (auto elim!: caller_step_cases simp: nth_list_update split: if_splits)
  qed
  show "pc (m_workers s' ! j) = Finished"
    if "j < length (m_workers s)" "pc (m_workers s ! j) = Finished"
  proof (cases a)
    case (WorkerStep i)
    with assms that show ?thesis by (auto elim!: worker_step_cases)
  next
    case (SpuriousWakeup i)
    with assms that show ?thesis by (auto elim!: spurious_wakeup_cases)
  next
    case (CallSchedule c priority f)
    with assms that show ?thesis by (auto elim!: Schedule_cases)
  next
    case (CallShutdown c)
    with assms that show ?thesis by (auto elim!: Shutdown_cases)
  next
    case (CallerStep c k)
    with assms that show ?thesis
      by (auto elim!: caller_step_cases)
  qed
qed

lemma joined_finished_exec:
  assumes "joined_finished s" and "exec a s = Some s'"
  shows "joined_finished s'"
  unfolding joined_finished_def list_all_length
proof (intro allI impI)
  fix j assume j: "j < length (m_workers s')" and nj: "\<not> joinable (m_workers s' ! j)"
  have len: "length (m_workers s') = length (m_workers s)"
    using assms(2) by (rule workers_exec)
  have Hj: "\<not> joinable (m_workers s ! j) \<longrightarrow> pc (m_workers s ! j) = Finished"
    using assms(1) j len by (simp add: joined_finished_def list_all_length)
  show "pc (m_workers s' ! j) = Finished"
  proof (cases a)
    case (WorkerStep i)
    with assms(2) have "worker_step i s = Some s'" by simp
    then show ?thesis using Hj j len nj
      by (cases rule: worker_step_cases) (auto split: if_splits)
  next
    case (SpuriousWakeup i)
    with assms(2) Hj j len nj show ?thesis
      by (auto elim!: spurious_wakeup_cases split: if_splits)
  next
    case (CallSchedule c priority f)
    with assms(2) Hj j len nj show ?thesis by (auto elim!: Schedule_cases)
  next
    case (CallShutdown c)
    with assms(2) Hj j len nj show ?thesis by (auto elim!: Shutdown_cases)
  next
    case (CallerStep c k)
    with assms(2) have "caller_step c k s = Some s'" by simp
    then show ?thesis using Hj j len nj
      by (cases rule: caller_step_cases) (auto simp: nth_list_update split: if_splits)
  qed
qed

lemma reachable_joined_finished: "reachable s \<Longrightarrow> joined_finished s"
proof (induction rule: reachable.induct)
  case (reachable_init threadCount s)
  from ThreadPool_Some [OF this] show ?case by (simp add: joined_finished_def list_all_length)
next
  case (reachable_step s a s')
  from reachable_step.IH reachable_step.hyps(2) show ?case by (rule joined_finished_exec)
qed

lemma join_progress_exec:
  assumes "join_progress s (callers s c)" and "exec a s = Some s'"
  shows "join_progress s' (callers s' c)"
proof -
  have len: "length (m_workers s') = length (m_workers s)"
    using assms(2) by (rule workers_exec)
  have mono: "\<not> joinable (m_workers s' ! j)"
    if "j < length (m_workers s)" "\<not> joinable (m_workers s ! j)" for j
    using workers_exec(2) [OF assms(2)] that by blast
  have run: "\<not> m_running s'" if "\<not> m_running s"
    using m_running_exec [OF assms(2)] that by blast
  have keep: "join_progress s' p" if "join_progress s p" for p
  proof (cases p)
    case (Shutdown_join i)
    with that have "\<not> m_running s"
      and "\<forall>j. j < i \<and> j < length (m_workers s) \<longrightarrow> \<not> joinable (m_workers s ! j)"
      by (auto simp: list_all_length)
    with run mono len show ?thesis
      unfolding Shutdown_join by (auto simp: list_all_length)
  qed (use that run in auto)
  show ?thesis
  proof (cases a)
    case (WorkerStep i)
    with assms(2) have "callers s' c = callers s c" by (auto elim!: worker_step_cases)
    with keep assms(1) show ?thesis by simp
  next
    case (SpuriousWakeup i)
    with assms(2) have "callers s' c = callers s c" by (auto elim!: spurious_wakeup_cases)
    with keep assms(1) show ?thesis by simp
  next
    case (CallSchedule d priority f)
    with assms(2) have "callers s' c = callers s c \<or> callers s' c = AddJob_lock (Some (InvokeTask (length (heap s)))) priority"
      by (auto elim!: Schedule_cases)
    with keep assms(1) show ?thesis by auto
  next
    case (CallShutdown d)
    with assms(2) have "callers s' c = callers s c \<or> (callers s' c = Shutdown_notify \<and> \<not> m_running s')"
      by (auto elim!: Shutdown_cases)
    with keep assms(1) show ?thesis by auto
  next
    case (CallerStep d k)
    show ?thesis
    proof (cases "d = c")
      case False
      with CallerStep assms(2) have "callers s' c = callers s c" by (auto elim!: caller_step_cases)
      with keep assms(1) show ?thesis by simp
    next
      case True
      with CallerStep assms(2) have "caller_step c k s = Some s'" by simp
      then show ?thesis using assms(1)
        by (cases rule: caller_step_cases)
           (auto simp: list_all_length nth_list_update less_Suc_eq)
    qed
  qed
qed

lemma reachable_join_progress: "reachable s \<Longrightarrow> join_progress s (callers s c)"
proof (induction rule: reachable.induct)
  case (reachable_init threadCount s)
  from ThreadPool_Some [OF this] show ?case by simp
next
  case (reachable_step s a s')
  from reachable_step.IH reachable_step.hyps(2) show ?case by (rule join_progress_exec)
qed

lemma Shutdown_returns_completed:
  assumes "reachable s" and "callers s c = Shutdown_join i" and "\<not> i < length (m_workers s)"
    and "caller_step c k s = Some s'"
  shows "shutdown_completed s' \<and> callers s' c = Idle"
proof -
  have s': "s' = set_caller c Idle s"
    using assms(4,2,3) by (cases rule: caller_step_cases) auto
  have "join_progress s (Shutdown_join i)"
    using reachable_join_progress [OF assms(1), of c] assms(2) by simp
  then have r: "\<not> m_running s" and j: "list_all (\<lambda>w. \<not> joinable w) (m_workers s)"
    using assms(3) by simp_all
  have "list_all (\<lambda>w. \<not> joinable w \<longrightarrow> pc w = Finished) (m_workers s)"
    using reachable_joined_finished [OF assms(1)] by (simp add: joined_finished_def)
  with j have "list_all (\<lambda>w. pc w = Finished \<and> \<not> joinable w) (m_workers s)"
    by (auto simp: list_all_iff)
  with r show ?thesis by (simp add: s' shutdown_completed_def)
qed

lemma shutdown_completed_exec:
  assumes "shutdown_completed s" and "exec a s = Some s'"
  shows "shutdown_completed s'"
proof -
  have len: "length (m_workers s') = length (m_workers s)"
    using assms(2) by (rule workers_exec)
  have "\<not> m_running s'"
    using m_running_exec [OF assms(2)] assms(1) by (simp add: shutdown_completed_def)
  moreover have "pc (m_workers s' ! j) = Finished \<and> \<not> joinable (m_workers s' ! j)"
    if "j < length (m_workers s')" for j
    using workers_exec(2,3) [OF assms(2), of j] that assms(1) len
    by (auto simp: shutdown_completed_def list_all_length)
  ultimately show ?thesis by (simp add: shutdown_completed_def list_all_length)
qed

lemma join_loop_joined:
  assumes "list_all (\<lambda>w. \<not> joinable w) (m_workers t)" and "callers t c = Shutdown_join i"
    and "i + n = length (m_workers t)"
  shows "run (replicate (n + 1) (CallerStep c 0)) t = Some (set_caller c Idle t)"
  using assms
proof (induction n arbitrary: t i)
  case 0
  then show ?case by (simp add: caller_step_def)
next
  case (Suc n)
  let ?t = "set_caller c (Shutdown_join (i + 1)) t"
  have step: "caller_step c 0 t = Some ?t"
    using Suc.prems by (simp add: caller_step_def list_all_length)
  have "run (replicate (n + 1) (CallerStep c 0)) ?t = Some (set_caller c Idle ?t)"
    using Suc.prems by (intro Suc.IH [of _ "i + 1"]) simp_all
  moreover have "set_caller c Idle ?t = set_caller c Idle t"
    by (simp add: set_caller_def)
  ultimately show ?case using step by simp
qed

lemma Shutdown_again_noop:
  assumes "shutdown_completed s" and "callers s c = Idle"
  shows "run (Shutdown_call c s) s = Some s"
proof -
  let ?a = "s\<lparr>m_running := False, callers := (callers s)(c := Shutdown_notify)\<rparr>"
  let ?b = "set_caller c (Shutdown_join 0) (notify_all ?a)"
  have fin: "list_all (\<lambda>w. pc w = Finished \<and> \<not> joinable w) (m_workers s)"
    and r: "\<not> m_running s"
    using assms(1) by (simp_all add: shutdown_completed_def)
  have w: "map wake (m_workers s) = m_workers s"
    using fin by (auto simp: list_all_iff wake_def intro: map_idI)
  have 1: "Shutdown c s = Some ?a" using assms(2) by (simp add: Shutdown_def)
  have 2: "caller_step c 0 ?a = Some ?b" by (simp add: caller_step_def)
  have wb: "m_workers ?b = m_workers s" by (simp add: notify_all_def w)
  have 3: "run (replicate (length (m_workers s) + 1) (CallerStep c 0)) ?b =
      Some (set_caller c Idle ?b)"
    using fin unfolding wb [symmetric]
    by (intro join_loop_joined [of _ _ 0]) (auto simp: wb list_all_iff)
  have "(callers s)(c := Idle) = callers s"
    using assms(2) by (simp add: fun_upd_idem)
  moreover have "s\<lparr>m_running := False\<rparr> = s"
    using r by (cases s) simp
  ultimately have 4: "set_caller c Idle ?b = s"
    using w by (simp add: set_caller_def notify_all_def)
  from 1 2 3 4 show ?thesis by (simp add: Shutdown_call_def)
qed

text \<open>
  Claim C6. When a call of \<^verbatim>\<open>Shutdown\<close> returns (the step that ends its loop), the flag
  is false and every worker has finished and has been joined. No later step of any
  thread changes that. A further whole call of \<^verbatim>\<open>Shutdown\<close> in such a state goes through
  without waiting (every step of it is possible) and ends in the very same state: the
  flag is still false, the workers are still joined, nothing else has changed.
\<close>

theorem Shutdown_idempotent:
  "(reachable s \<and> callers s c = Shutdown_join i \<and> \<not> i < length (m_workers s) \<and>
      caller_step c k s = Some s1 \<longrightarrow> shutdown_completed s1 \<and> callers s1 c = Idle) \<and>
   (shutdown_completed s2 \<and> exec a s2 = Some s3 \<longrightarrow> shutdown_completed s3) \<and>
   (shutdown_completed s2 \<and> callers s2 d = Idle \<longrightarrow> run (Shutdown_call d s2) s2 = Some s2)"
  using Shutdown_returns_completed [of s c i k s1] shutdown_completed_exec [of s2 a s3]
    Shutdown_again_noop [of s2 d]
  by blast

theorem Shutdown_idempotent_witness:
  "reachable joining_state \<and> callers joining_state 0 = Shutdown_join 1 \<and>
   \<not> 1 < length (m_workers joining_state) \<and>
   caller_step 0 0 joining_state = Some joined_state \<and>
   shutdown_completed joined_state \<and> callers joined_state 0 = Idle \<and>
   exec (CallSchedule 1 High (Returns ())) joined_state =
     Some (joined_state\<lparr>heap := [\<lparr>stored_task = Returns (), shared_state = None\<rparr>],
        callers := (\<lambda>c. Idle)(1 := AddJob_lock (Some (InvokeTask 0)) High)\<rparr>) \<and>
   shutdown_completed (joined_state\<lparr>heap := [\<lparr>stored_task = Returns (), shared_state = None\<rparr>],
        callers := (\<lambda>c. Idle)(1 := AddJob_lock (Some (InvokeTask 0)) High)\<rparr>) \<and>
   run (Shutdown_call 0 joined_state) joined_state = Some joined_state"
proof -
  let ?u = "joined_state\<lparr>heap := [\<lparr>stored_task = Returns (), shared_state = None\<rparr>],
        callers := (\<lambda>c. Idle)(1 := AddJob_lock (Some (InvokeTask 0)) High)\<rparr>"
  have h1: "reachable joining_state" using joining_run by (rule reachable_trace)
  have h2: "callers joining_state 0 = Shutdown_join 1"
    and h3: "\<not> 1 < length (m_workers joining_state)"
    by (simp_all add: joining_state_def)
  have h4: "caller_step 0 0 joining_state = Some joined_state"
    by (simp add: joining_state_def joined_state_def caller_step_def set_caller_def fun_eq_iff)
  have h5: "callers joined_state 0 = Idle" by (simp add: joined_state_def)
  have h6: "exec (CallSchedule 1 High (Returns ())) joined_state = Some ?u"
    by (simp add: joined_state_def Schedule_def Schedule_future_def)
  note inst = Shutdown_idempotent [where s = joining_state and c = 0 and i = 1 and k = 0
      and ?s1.0 = joined_state and ?s2.0 = joined_state and a = "CallSchedule 1 High (Returns ())"
      and ?s3.0 = ?u and d = 0]
  from inst h1 h2 h3 h4 h5 h6 show ?thesis by simp
qed

section \<open>AddJob\<close>

lemma notify_one_workers:
  assumes "notify_one_choice k s"
  shows "m_workers (notify_one k s) =
     (if k \<in> set (blocked_workers s)
      then (m_workers s)[k := (m_workers s ! k)\<lparr>pc := WaitReacquire\<rparr>]
      else m_workers s)"
proof (cases "k \<in> set (blocked_workers s)")
  case True
  then show ?thesis by (simp add: notify_one_def blocked_workers_def wake_def)
next
  case False
  with assms have "blocked_workers s = []" by (simp add: notify_one_choice_def)
  then have "pc (m_workers s ! k) \<noteq> WaitBlocked" if "k < length (m_workers s)"
    using that by (auto simp: blocked_workers_def filter_empty_conv)
  with False show ?thesis by (simp add: notify_one_def wake_def)
qed

lemma blocked_workers_cong:
  assumes "m_workers t = m_workers s"
  shows "blocked_workers t = blocked_workers s"
  unfolding blocked_workers_def assms ..

lemma notify_one_choice_cong:
  assumes "m_workers t = m_workers s"
  shows "notify_one_choice k t = notify_one_choice k s"
  unfolding notify_one_choice_def blocked_workers_cong [OF assms] ..

text \<open>
  Claim C5, as the code has it. A caller that enters \<^verbatim>\<open>AddJob\<close> with any job and any
  priority while the mutex is free takes four steps: it locks the mutex; it appends the
  job at the back of the queue of that priority and leaves the other two queues as
  they are; still holding the mutex, it wakes the one blocked worker that the
  condition variable picks (none when no worker is blocked) and leaves every other
  worker as it is; and it releases the mutex when the function ends.
\<close>

theorem AddJob_steps:
  assumes "three_queues (m_jobsByPriority s)"
    and "callers s c = AddJob_lock job priority"
    and "m_guard s = None"
    and "notify_one_choice k s"
  shows "\<exists>s1 s2 s3 s4.
     caller_step c k s = Some s1 \<and> m_guard s1 = Some (CallerThread c) \<and>
     m_jobsByPriority s1 = m_jobsByPriority s \<and> m_workers s1 = m_workers s \<and>
     caller_step c k s1 = Some s2 \<and> m_guard s2 = Some (CallerThread c) \<and>
     map_at priority (m_jobsByPriority s2) =
       map_option (\<lambda>q. q @ [job]) (map_at priority (m_jobsByPriority s)) \<and>
     (\<forall>p. p \<noteq> priority \<longrightarrow> map_at p (m_jobsByPriority s2) = map_at p (m_jobsByPriority s)) \<and>
     m_workers s2 = m_workers s \<and>
     caller_step c k s2 = Some s3 \<and> m_guard s3 = Some (CallerThread c) \<and>
     m_workers s3 =
       (if k \<in> set (blocked_workers s)
        then (m_workers s)[k := (m_workers s ! k)\<lparr>pc := WaitReacquire\<rparr>]
        else m_workers s) \<and>
     m_jobsByPriority s3 = m_jobsByPriority s2 \<and>
     caller_step c k s3 = Some s4 \<and> m_guard s4 = None \<and> callers s4 c = Idle \<and>
     m_jobsByPriority s4 = m_jobsByPriority s2 \<and> m_workers s4 = m_workers s3 \<and>
     m_running s4 = m_running s \<and> heap s4 = heap s"
proof -
  let ?s1 = "set_caller c (AddJob_emplace job priority) (s\<lparr>m_guard := Some (CallerThread c)\<rparr>)"
  let ?s2 = "set_caller c AddJob_notify
      (?s1\<lparr>m_jobsByPriority := emplace priority job (m_jobsByPriority ?s1)\<rparr>)"
  let ?s3 = "set_caller c AddJob_unlock (notify_one k ?s2)"
  let ?s4 = "set_caller c Idle (?s3\<lparr>m_guard := None\<rparr>)"
  have c1: "caller_step c k s = Some ?s1"
    using assms(2,3) by (simp add: caller_step_def)
  have c2: "caller_step c k ?s1 = Some ?s2"
    by (simp add: caller_step_def)
  have b: "blocked_workers ?s2 = blocked_workers s"
    by (rule blocked_workers_cong) simp
  have ch: "notify_one_choice k ?s2"
    using assms(4) by (subst notify_one_choice_cong [of _ s]) simp_all
  have c3: "caller_step c k ?s2 = Some ?s3"
    using ch by (simp add: caller_step_def)
  have c4: "caller_step c k ?s3 = Some ?s4"
    by (simp add: caller_step_def)
  have w3: "m_workers ?s3 =
       (if k \<in> set (blocked_workers s)
        then (m_workers s)[k := (m_workers s ! k)\<lparr>pc := WaitReacquire\<rparr>]
        else m_workers s)"
    using notify_one_workers [OF ch] unfolding b by simp
  have q: "map_at priority (m_jobsByPriority ?s2) =
       map_option (\<lambda>q. q @ [job]) (map_at priority (m_jobsByPriority s))"
    and q': "\<forall>p. p \<noteq> priority \<longrightarrow> map_at p (m_jobsByPriority ?s2) = map_at p (m_jobsByPriority s)"
    using assms(1) by (simp_all add: map_at_emplace)
  show ?thesis
    apply (rule exI [of _ ?s1], rule exI [of _ ?s2], rule exI [of _ ?s3], rule exI [of _ ?s4])
    apply (intro conjI)
    using c1 c2 c3 c4 w3 q q' by simp_all
qed

theorem AddJob_steps_witness:
  "three_queues (m_jobsByPriority two_sleepers_state) \<and>
   callers two_sleepers_state 0 = AddJob_lock (Some (InvokeTask 0)) High \<and>
   m_guard two_sleepers_state = None \<and>
   notify_one_choice 1 two_sleepers_state \<and>
   blocked_workers two_sleepers_state = [0, 1] \<and>
   map_at High (m_jobsByPriority two_sleepers_state) = Some [] \<and>
   (\<exists>s1 s2 s3 s4.
      caller_step 0 1 two_sleepers_state = Some s1 \<and>
      caller_step 0 1 s1 = Some s2 \<and>
      map_at High (m_jobsByPriority s2) = Some [Some (InvokeTask 0)] \<and>
      map_at Critical (m_jobsByPriority s2) = Some [] \<and>
      map_at Normal (m_jobsByPriority s2) = Some [] \<and>
      caller_step 0 1 s2 = Some s3 \<and> m_guard s3 = Some (CallerThread 0) \<and>
      m_workers s3 =
        [\<lparr>pc = WaitBlocked, joinable = True\<rparr>, \<lparr>pc = WaitReacquire, joinable = True\<rparr>] \<and>
      caller_step 0 1 s3 = Some s4 \<and> m_guard s4 = None \<and> callers s4 0 = Idle)"
proof -
  have h1: "three_queues (m_jobsByPriority two_sleepers_state)"
    by (simp add: two_sleepers_state_def three_queues_def)
  have h2: "callers two_sleepers_state 0 = AddJob_lock (Some (InvokeTask 0)) High"
    and h3: "m_guard two_sleepers_state = None"
    by (simp_all add: two_sleepers_state_def)
  have b: "blocked_workers two_sleepers_state = [0, 1]"
    by (simp add: two_sleepers_state_def blocked_workers_def upt_rec)
  have h4: "notify_one_choice 1 two_sleepers_state"
    by (simp add: notify_one_choice_def b)
  have q: "map_at High (m_jobsByPriority two_sleepers_state) = Some []"
    "map_at Critical (m_jobsByPriority two_sleepers_state) = Some []"
    "map_at Normal (m_jobsByPriority two_sleepers_state) = Some []"
    by (simp_all add: two_sleepers_state_def)
  have w: "(m_workers two_sleepers_state)[1 := (m_workers two_sleepers_state ! 1)\<lparr>pc := WaitReacquire\<rparr>] =
      [\<lparr>pc = WaitBlocked, joinable = True\<rparr>, \<lparr>pc = WaitReacquire, joinable = True\<rparr>]"
    by (simp add: two_sleepers_state_def)
  from AddJob_steps [OF h1 h2 h3 h4] obtain s1 s2 s3 s4 where
    "caller_step 0 1 two_sleepers_state = Some s1"
    "caller_step 0 1 s1 = Some s2"
    "map_at High (m_jobsByPriority s2) =
       map_option (\<lambda>q. q @ [Some (InvokeTask 0)]) (map_at High (m_jobsByPriority two_sleepers_state))"
    "\<forall>p. p \<noteq> High \<longrightarrow> map_at p (m_jobsByPriority s2) = map_at p (m_jobsByPriority two_sleepers_state)"
    "caller_step 0 1 s2 = Some s3" "m_guard s3 = Some (CallerThread 0)"
    "m_workers s3 =
       (if 1 \<in> set (blocked_workers two_sleepers_state)
        then (m_workers two_sleepers_state)[1 := (m_workers two_sleepers_state ! 1)\<lparr>pc := WaitReacquire\<rparr>]
        else m_workers two_sleepers_state)"
    "caller_step 0 1 s3 = Some s4" "m_guard s4 = None" "callers s4 0 = Idle"
    by blast
  then have "caller_step 0 1 two_sleepers_state = Some s1 \<and>
      caller_step 0 1 s1 = Some s2 \<and>
      map_at High (m_jobsByPriority s2) = Some [Some (InvokeTask 0)] \<and>
      map_at Critical (m_jobsByPriority s2) = Some [] \<and>
      map_at Normal (m_jobsByPriority s2) = Some [] \<and>
      caller_step 0 1 s2 = Some s3 \<and> m_guard s3 = Some (CallerThread 0) \<and>
      m_workers s3 =
        [\<lparr>pc = WaitBlocked, joinable = True\<rparr>, \<lparr>pc = WaitReacquire, joinable = True\<rparr>] \<and>
      caller_step 0 1 s3 = Some s4 \<and> m_guard s4 = None \<and> callers s4 0 = Idle"
    using q w b by simp
  then show ?thesis using h1 h2 h3 h4 b q by blast
qed

text \<open>
  Claim C5 as stated fails in the order of its last two steps. On the run
  \<open>notified_trace\<close> the sleeping worker has already been woken by the caller's
  \<^verbatim>\<open>notify_one\<close> (before the call it was blocked) while the caller still owns the mutex
  and has its unlocking ahead: the woken worker cannot lock the mutex, and the mutex
  becomes free only with the caller's next step.
\<close>

theorem AddJob_notifies_before_unlock_counterexample:
  "Option.bind (ThreadPool (Suc 0)) (run notified_trace) = Some notified_state \<and>
   map_option m_workers (Option.bind (ThreadPool (Suc 0)) (run (butlast notified_trace))) =
     Some [\<lparr>pc = WaitBlocked, joinable = True\<rparr>] \<and>
   m_workers notified_state = [\<lparr>pc = WaitReacquire, joinable = True\<rparr>] \<and>
   callers notified_state 0 = AddJob_unlock \<and>
   m_guard notified_state = Some (CallerThread 0) \<and>
   worker_step 0 notified_state = None \<and>
   map_option m_guard (caller_step 0 0 notified_state) = Some None"
  by (simp add: notified_run)
     (simp add: ThreadPool_Suc_0 notified_trace_def notified_state_def step_defs)

section \<open>Every job is run once\<close>

lemma count_list_update:
  "i < length xs \<Longrightarrow>
   count_list (xs[i := y]) x + (if xs ! i = x then 1 else 0) =
   count_list xs x + (if y = x then 1 else 0)"
proof (induction xs arbitrary: i)
  case Nil
  then show ?case by simp
next
  case (Cons z zs)
  show ?case
  proof (cases i)
    case 0
    then show ?thesis by auto
  next
    case (Suc n)
    with Cons.prems have "n < length zs" by simp
    from Cons.IH [OF this] show ?thesis using Suc by auto
  qed
qed

lemma count_list_nth: "i < length xs \<Longrightarrow> 1 \<le> count_list xs (xs ! i)"
proof (induction xs arbitrary: i)
  case Nil
  then show ?case by simp
next
  case (Cons z zs)
  show ?case
  proof (cases i)
    case 0
    then show ?thesis by simp
  next
    case (Suc n)
    with Cons.prems have "n < length zs" by simp
    from Cons.IH [OF this] show ?thesis using Suc by simp
  qed
qed

lemma count_bank_jobs_dequeue_scan:
  "count_list (bank_jobs b) (Some t) =
   count_list (bank_jobs (snd (dequeue_scan b))) (Some t) +
   (if fst (dequeue_scan b) = Some t then 1 else 0)"
  by (induction b rule: dequeue_scan.induct) (auto simp: bank_jobs_def split: prod.splits)

lemma count_bank_jobs_emplace:
  assumes "three_queues b"
  shows "count_list (bank_jobs (emplace p job b)) x =
     count_list (bank_jobs b) x + (if job = x then 1 else 0)"
proof -
  from assms obtain qc qh qn where b: "b = [(Critical, qc), (High, qh), (Normal, qn)]"
    by (auto simp: three_queues_shape)
  have "emplace p job b = map_apply p (\<lambda>q. q @ [job]) b"
    using assms by (rule emplace_three_queues)
  then show ?thesis
    unfolding b by (cases p) (simp_all add: bank_jobs_def)
qed

lemma worker_jobs_simps [simp]:
  "worker_jobs (set_pc i p s) = (worker_jobs s)[i := worker_job p]"
  "worker_jobs (set_caller c q s) = worker_jobs s"
  "worker_jobs (notify_all s) = worker_jobs s"
  "worker_jobs (notify_one k s) = worker_jobs s"
  "worker_jobs (snd (invoke_function job s)) = worker_jobs s"
  "worker_jobs (s\<lparr>m_guard := g\<rparr>) = worker_jobs s"
  "worker_jobs (s\<lparr>m_running := r\<rparr>) = worker_jobs s"
  "worker_jobs (s\<lparr>m_jobsByPriority := b\<rparr>) = worker_jobs s"
  "worker_jobs (s\<lparr>heap := h\<rparr>) = worker_jobs s"
  "worker_jobs (s\<lparr>m_workers := (m_workers s)[j := (m_workers s ! j)\<lparr>joinable := False\<rparr>]\<rparr>) =
     worker_jobs s"
proof -
  show "worker_jobs (set_pc i p s) = (worker_jobs s)[i := worker_job p]"
    by (simp add: worker_jobs_def set_pc_def map_update)
  have wake: "(\<lambda>w. worker_job (pc (wake w))) = (\<lambda>w. worker_job (pc w))"
    by (auto simp: fun_eq_iff)
  show "worker_jobs (notify_all s) = worker_jobs s"
    by (simp add: worker_jobs_def notify_all_def comp_def wake)
  have "(map (\<lambda>w. worker_job (pc w)) (m_workers s))[k := worker_job (pc (wake (m_workers s ! k)))] =
      map (\<lambda>w. worker_job (pc w)) (m_workers s)" if "k < length (m_workers s)"
    using that by (intro nth_equalityI) (auto simp: nth_list_update)
  then show "worker_jobs (notify_one k s) = worker_jobs s"
    by (simp add: worker_jobs_def notify_one_def map_update del: wake_simps)
  show "worker_jobs (s\<lparr>m_workers := (m_workers s)[j := (m_workers s ! j)\<lparr>joinable := False\<rparr>]\<rparr>) =
     worker_jobs s"
    by (intro nth_equalityI) (auto simp: worker_jobs_def)
qed (simp_all add: worker_jobs_def)

lemma worker_jobs_same:
  "i < length (m_workers s) \<Longrightarrow> worker_job (pc (m_workers s ! i)) = j \<Longrightarrow>
   (worker_jobs s)[i := j] = worker_jobs s"
  by (simp add: worker_jobs_def list_update_same_conv)

lemma worker_jobs_nth:
  "i < length (m_workers s) \<Longrightarrow> worker_jobs s ! i = worker_job (pc (m_workers s ! i))"
  by (simp add: worker_jobs_def)

lemma length_worker_jobs [simp]: "length (worker_jobs s) = length (m_workers s)"
  by (simp add: worker_jobs_def)

lemma task_pending_once_frame:
  assumes "task_pending_once s a"
    and "m_jobsByPriority s' = m_jobsByPriority s" and "worker_jobs s' = worker_jobs s"
    and "callers s' = callers s" and "heap s' = heap s"
  shows "task_pending_once s' a"
  using assms unfolding task_pending_once_def pending_count_def holders_def unexecuted_def
  by metis

lemma task_pending_once_worker_step:
  assumes "task_pending_once s a" and "worker_step i s = Some s'"
  shows "task_pending_once s' a"
  using assms(2)
proof (cases rule: worker_step_cases)
  case ScanQueues
  let ?t = "Some (InvokeTask a)"
  let ?b = "m_jobsByPriority s"
  have "count_list ((worker_jobs s)[i := fst (dequeue_scan ?b)]) ?t +
      (if worker_jobs s ! i = ?t then 1 else 0) =
      count_list (worker_jobs s) ?t + (if fst (dequeue_scan ?b) = ?t then 1 else 0)"
    using ScanQueues(1) by (intro count_list_update) simp
  moreover have "worker_jobs s ! i = None"
    using ScanQueues(1,2) by (simp add: worker_jobs_nth)
  ultimately have "pending_count s' a = pending_count s a"
    using count_bank_jobs_dequeue_scan [of ?b "InvokeTask a"]
    by (simp add: pending_count_def ScanQueues(3))
  moreover have "holders s' a = holders s a" "unexecuted s' a = unexecuted s a"
    by (simp_all add: holders_def unexecuted_def ScanQueues(3))
  ultimately show ?thesis using assms(1) by (simp add: task_pending_once_def)
next
  case (RunJob job)
  let ?t = "Some (InvokeTask a)"
  have h: "holders s' a = holders s a"
    by (simp add: holders_def RunJob(5))
  have "count_list ((worker_jobs s)[i := None]) ?t + (if worker_jobs s ! i = ?t then 1 else 0) =
      count_list (worker_jobs s) ?t + (if None = ?t then 1 else 0)"
    using RunJob(1) by (intro count_list_update) simp
  then have p: "pending_count s' a + (if job = ?t then 1 else 0) = pending_count s a"
    using RunJob(1,2) by (simp add: pending_count_def RunJob(5) worker_jobs_nth)
  have u: "unexecuted s' a" if "unexecuted s a" "job \<noteq> ?t"
    using that RunJob(3)
    by (auto simp: unexecuted_def RunJob(5) invoke_function_def invoke_target_def
          nth_list_update split: option.splits target.splits)
  show ?thesis
  proof (cases "job = ?t")
    case True
    with p assms(1) have "pending_count s' a = 0" "pending_count s a = 1"
      by (simp_all add: task_pending_once_def)
    with assms(1) h show ?thesis by (auto simp: task_pending_once_def)
  next
    case False
    with p have "pending_count s' a = pending_count s a" by simp
    with assms(1) h u False show ?thesis by (auto simp: task_pending_once_def)
  qed
next
  case (RunJobThrows job e)
  let ?t = "Some (InvokeTask a)"
  have h: "holders s' a = holders s a"
    by (simp add: holders_def RunJobThrows(5))
  have "count_list ((worker_jobs s)[i := None]) ?t + (if worker_jobs s ! i = ?t then 1 else 0) =
      count_list (worker_jobs s) ?t + (if None = ?t then 1 else 0)"
    using RunJobThrows(1) by (intro count_list_update) simp
  then have p: "pending_count s' a + (if job = ?t then 1 else 0) = pending_count s a"
    using RunJobThrows(1,2) by (simp add: pending_count_def RunJobThrows(5) worker_jobs_nth)
  have u: "unexecuted s' a" if "unexecuted s a" "job \<noteq> ?t"
    using that RunJobThrows(3)
    by (auto simp: unexecuted_def RunJobThrows(5) invoke_function_def invoke_target_def
          nth_list_update split: option.splits target.splits)
  show ?thesis
  proof (cases "job = ?t")
    case True
    with p assms(1) have "pending_count s' a = 0" "pending_count s a = 1"
      by (simp_all add: task_pending_once_def)
    with assms(1) h show ?thesis by (auto simp: task_pending_once_def)
  next
    case False
    with p have "pending_count s' a = pending_count s a" by simp
    with assms(1) h u False show ?thesis by (auto simp: task_pending_once_def)
  qed
qed (rule task_pending_once_frame [OF assms(1)]; simp add: worker_jobs_same)+

lemma holders_set_caller:
  "holders (set_caller c p u) a =
     (if caller_job p = Some (InvokeTask a) then insert c (holders u a) else holders u a - {c})"
  by (auto simp: holders_def)

lemma holders_mem: "(c \<in> holders s a) = (caller_job (callers s c) = Some (InvokeTask a))"
  by (simp add: holders_def)

lemma task_pending_once_same:
  assumes "task_pending_once s a"
    and "pending_count s' a = pending_count s a" and "holders s' a = holders s a"
    and "unexecuted s a \<Longrightarrow> unexecuted s' a"
  shows "task_pending_once s' a"
  unfolding task_pending_once_def assms(2) assms(3)
  using assms(1,4) unfolding task_pending_once_def by blast

lemma task_pending_once_caller_step:
  assumes "task_pending_once s a" and "three_queues (m_jobsByPriority s)"
    and "caller_step c k s = Some s'"
  shows "task_pending_once s' a"
  using assms(3)
proof (cases rule: caller_step_cases)
  case (Lock job priority)
  have "c \<in> holders s a \<longleftrightarrow> job = Some (InvokeTask a)"
    by (simp add: holders_mem Lock(1))
  then have "holders s' a = holders s a"
    unfolding Lock(3) holders_set_caller by (auto simp: holders_def)
  moreover have "pending_count s' a = pending_count s a" "unexecuted s' a = unexecuted s a"
    by (simp_all add: Lock(3) pending_count_def unexecuted_def)
  ultimately show ?thesis by - (rule task_pending_once_same [OF assms(1)], simp_all)
next
  case (Emplace job priority)
  have m: "c \<in> holders s a \<longleftrightarrow> job = Some (InvokeTask a)"
    by (simp add: holders_mem Emplace(1))
  have h: "holders s' a = holders s a - {c}"
    unfolding Emplace(2) holders_set_caller by (auto simp: holders_def)
  have p: "pending_count s' a = pending_count s a + (if job = Some (InvokeTask a) then 1 else 0)"
    using count_bank_jobs_emplace [OF assms(2), of priority job "Some (InvokeTask a)"]
    by (simp add: Emplace(2) pending_count_def)
  have u: "unexecuted s' a = unexecuted s a"
    by (simp add: Emplace(2) unexecuted_def)
  show ?thesis
  proof (cases "job = Some (InvokeTask a)")
    case True
    with m assms(1) have "pending_count s a = 0" "holders s a = {c}" "unexecuted s a"
      by (auto simp: task_pending_once_def)
    with True p h u show ?thesis by (simp add: task_pending_once_def)
  next
    case False
    with m h p have "holders s' a = holders s a" "pending_count s' a = pending_count s a"
      by auto
    with u show ?thesis by - (rule task_pending_once_same [OF assms(1)], simp_all)
  qed
next
  case Notify
  have "c \<notin> holders s a" by (simp add: holders_mem Notify(1))
  then have "holders s' a = holders s a"
    unfolding Notify(3) holders_set_caller by (auto simp: holders_def)
  moreover have "pending_count s' a = pending_count s a" "unexecuted s' a = unexecuted s a"
    by (simp_all add: Notify(3) pending_count_def unexecuted_def)
  ultimately show ?thesis by - (rule task_pending_once_same [OF assms(1)], simp_all)
next
  case Unlock
  have "c \<notin> holders s a" by (simp add: holders_mem Unlock(1))
  then have "holders s' a = holders s a"
    unfolding Unlock(2) holders_set_caller by (auto simp: holders_def)
  moreover have "pending_count s' a = pending_count s a" "unexecuted s' a = unexecuted s a"
    by (simp_all add: Unlock(2) pending_count_def unexecuted_def)
  ultimately show ?thesis by - (rule task_pending_once_same [OF assms(1)], simp_all)
next
  case NotifyAll
  have "c \<notin> holders s a" by (simp add: holders_mem NotifyAll(1))
  then have "holders s' a = holders s a"
    unfolding NotifyAll(2) holders_set_caller by (auto simp: holders_def)
  moreover have "pending_count s' a = pending_count s a" "unexecuted s' a = unexecuted s a"
    by (simp_all add: NotifyAll(2) pending_count_def unexecuted_def)
  ultimately show ?thesis by - (rule task_pending_once_same [OF assms(1)], simp_all)
next
  case (Join i)
  have "c \<notin> holders s a" by (simp add: holders_mem Join(1))
  then have "holders s' a = holders s a"
    unfolding Join(5) holders_set_caller by (auto simp: holders_def)
  moreover have "pending_count s' a = pending_count s a" "unexecuted s' a = unexecuted s a"
    by (simp_all add: Join(5) pending_count_def unexecuted_def)
  ultimately show ?thesis by - (rule task_pending_once_same [OF assms(1)], simp_all)
next
  case (Joined i)
  have "c \<notin> holders s a" by (simp add: holders_mem Joined(1))
  then have "holders s' a = holders s a"
    unfolding Joined(4) holders_set_caller by (auto simp: holders_def)
  moreover have "pending_count s' a = pending_count s a" "unexecuted s' a = unexecuted s a"
    by (simp_all add: Joined(4) pending_count_def unexecuted_def)
  ultimately show ?thesis by - (rule task_pending_once_same [OF assms(1)], simp_all)
next
  case (JoinEnd i)
  have "c \<notin> holders s a" by (simp add: holders_mem JoinEnd(1))
  then have "holders s' a = holders s a"
    unfolding JoinEnd(3) holders_set_caller by (auto simp: holders_def)
  moreover have "pending_count s' a = pending_count s a" "unexecuted s' a = unexecuted s a"
    by (simp_all add: JoinEnd(3) pending_count_def unexecuted_def)
  ultimately show ?thesis by - (rule task_pending_once_same [OF assms(1)], simp_all)
qed

lemma task_pending_once_Schedule:
  assumes "task_pending_once s a" and "Schedule c priority f s = Some s'"
  shows "task_pending_once s' a"
  using assms(2)
proof (cases rule: Schedule_cases)
  case 1
  have nc: "c \<notin> holders s a" by (simp add: holders_mem 1(1))
  have p: "pending_count s' a = pending_count s a"
    by (simp add: 1(2) pending_count_def)
  have u: "unexecuted s' a = (unexecuted s a \<or> a = length (heap s))"
    by (auto simp: 1(2) unexecuted_def nth_append)
  show ?thesis
  proof (cases "a = length (heap s)")
    case True
    then have "\<not> unexecuted s a" by (simp add: unexecuted_def)
    with assms(1) have "pending_count s a = 0" "holders s a = {}"
      by (auto simp: task_pending_once_def)
    moreover have "holders s' a = insert c (holders s a)"
      unfolding 1(2) holders_set_caller using True by (simp add: holders_def)
    ultimately show ?thesis using p u True by (simp add: task_pending_once_def)
  next
    case False
    then have "holders s' a = holders s a"
      unfolding 1(2) holders_set_caller using nc by (auto simp: holders_def)
    with p u show ?thesis by - (rule task_pending_once_same [OF assms(1)], simp_all)
  qed
qed

lemma task_pending_once_exec:
  assumes "task_pending_once s a" and "three_queues (m_jobsByPriority s)"
    and "exec act s = Some s'"
  shows "task_pending_once s' a"
proof (cases act)
  case (WorkerStep i)
  with assms show ?thesis by (simp add: task_pending_once_worker_step)
next
  case (SpuriousWakeup i)
  with assms(3) have "spurious_wakeup i s = Some s'" by simp
  then show ?thesis
    by (cases rule: spurious_wakeup_cases)
       (rule task_pending_once_frame [OF assms(1)]; simp add: worker_jobs_same)+
next
  case (CallSchedule c priority f)
  with assms show ?thesis by (simp add: task_pending_once_Schedule)
next
  case (CallShutdown c)
  with assms(3) have "Shutdown c s = Some s'" by simp
  then show ?thesis
  proof (cases rule: Shutdown_cases)
    case 1
    have "c \<notin> holders s a" by (simp add: holders_mem 1(1))
    then have "holders s' a = holders s a"
      unfolding 1(2) holders_set_caller by (auto simp: holders_def)
    moreover have "pending_count s' a = pending_count s a" "unexecuted s' a = unexecuted s a"
      by (simp_all add: 1(2) pending_count_def unexecuted_def)
    ultimately show ?thesis by - (rule task_pending_once_same [OF assms(1)], simp_all)
  qed
next
  case (CallerStep c k)
  with assms show ?thesis by (simp add: task_pending_once_caller_step)
qed

lemma reachable_task_pending_once: "reachable s \<Longrightarrow> task_pending_once s a"
proof (induction rule: reachable.induct)
  case (reachable_init threadCount s)
  from ThreadPool_Some [OF this] show ?case
    by (simp add: task_pending_once_def pending_count_def holders_def unexecuted_def
          bank_jobs_def worker_jobs_def)
next
  case (reachable_step s act s')
  from reachable_step.IH reachable_three_queues [OF reachable_step.hyps(1)]
    reachable_step.hyps(2)
  show ?case by (rule task_pending_once_exec)
qed

lemma held_job_unexecuted:
  assumes "task_pending_once s a" and "i < length (m_workers s)"
    and "pc (m_workers s ! i) = RunJob (Some (InvokeTask a))"
  shows "unexecuted s a"
proof -
  have "worker_jobs s ! i = Some (InvokeTask a)"
    using assms(2,3) by (simp add: worker_jobs_nth)
  moreover have "1 \<le> count_list (worker_jobs s) (worker_jobs s ! i)"
    using assms(2) by (intro count_list_nth) simp
  ultimately have "1 \<le> pending_count s a" by (simp add: pending_count_def)
  with assms(1) show ?thesis by (auto simp: task_pending_once_def)
qed

lemma invoke_function_unexecuted:
  "unexecuted s a \<Longrightarrow>
   invoke_function (Some (InvokeTask a)) s =
     (None, s\<lparr>heap := (heap s)[a := (heap s ! a)\<lparr>shared_state := Some (stored_task (heap s ! a))\<rparr>]\<rparr>)"
  by (simp add: invoke_function_def invoke_target_def unexecuted_def)

lemma no_terminated_exec:
  assumes "reachable s" and "exec act s = Some s'"
    and "\<forall>j < length (m_workers s). \<forall>e. pc (m_workers s ! j) \<noteq> Terminated e"
  shows "\<forall>j < length (m_workers s'). \<forall>e. pc (m_workers s' ! j) \<noteq> Terminated e"
proof (intro allI impI)
  fix j e assume j: "j < length (m_workers s')"
  have len: "length (m_workers s') = length (m_workers s)"
    using assms(2) by (rule workers_exec)
  have Hj: "pc (m_workers s ! j) \<noteq> Terminated e"
    using assms(3) j len by simp
  show "pc (m_workers s' ! j) \<noteq> Terminated e"
  proof (cases act)
    case (WorkerStep i)
    with assms(2) have "worker_step i s = Some s'" by simp
    then show ?thesis
    proof (cases rule: worker_step_cases)
      case (RunJobThrows job e')
      from RunJobThrows(3) obtain t where "job = Some t" by auto
      then obtain a where job: "job = Some (InvokeTask a)" by (cases t) simp
      have "unexecuted s a"
        using reachable_task_pending_once [OF assms(1)] RunJobThrows(1,2) job
        by (intro held_job_unexecuted) simp_all
      then have "fst (invoke_function job s) = None"
        by (simp add: job invoke_function_unexecuted)
      with RunJobThrows(4) show ?thesis by simp
    qed (use Hj j len in \<open>auto split: if_splits\<close>)
  next
    case (SpuriousWakeup i)
    with assms(2) Hj j len show ?thesis
      by (auto elim!: spurious_wakeup_cases split: if_splits)
  next
    case (CallSchedule c priority f)
    with assms(2) Hj j len show ?thesis by (auto elim!: Schedule_cases)
  next
    case (CallShutdown c)
    with assms(2) Hj j len show ?thesis by (auto elim!: Shutdown_cases)
  next
    case (CallerStep c k)
    with assms(2) have "caller_step c k s = Some s'" by simp
    then show ?thesis using Hj j len
      by (cases rule: caller_step_cases) (auto split: if_splits)
  qed
qed

lemma reachable_no_terminated:
  "reachable s \<Longrightarrow> \<forall>j < length (m_workers s). \<forall>e. pc (m_workers s ! j) \<noteq> Terminated e"
proof (induction rule: reachable.induct)
  case (reachable_init threadCount s)
  from ThreadPool_Some [OF this] show ?case by simp
next
  case (reachable_step s act s')
  from reachable_step.hyps(1,2) reachable_step.IH show ?case by (rule no_terminated_exec)
qed

lemma stored_task_exec:
  assumes "exec act s = Some s'" and "h < length (heap s)"
  shows "h < length (heap s') \<and> stored_task (heap s' ! h) = stored_task (heap s ! h)"
proof (cases act)
  case (WorkerStep i)
  with assms(1) have "worker_step i s = Some s'" by simp
  then show ?thesis using assms(2)
    by (cases rule: worker_step_cases)
       (auto simp: invoke_function_def invoke_target_def nth_list_update
          split: option.splits target.splits if_splits)
next
  case (SpuriousWakeup i)
  with assms show ?thesis by (auto elim!: spurious_wakeup_cases)
next
  case (CallSchedule c priority f)
  with assms show ?thesis by (auto elim!: Schedule_cases simp: nth_append)
next
  case (CallShutdown c)
  with assms show ?thesis by (auto elim!: Shutdown_cases)
next
  case (CallerStep c k)
  with assms show ?thesis by (auto elim!: caller_step_cases)
qed

lemma stored_task_run:
  "run as s = Some s' \<Longrightarrow> h < length (heap s) \<Longrightarrow>
   h < length (heap s') \<and> stored_task (heap s' ! h) = stored_task (heap s ! h)"
proof (induction as arbitrary: s)
  case Nil
  then show ?case by simp
next
  case (Cons act as)
  from Cons.prems(1) obtain u where u: "exec act s = Some u" "run as u = Some s'"
    by (auto split: option.splits)
  from stored_task_exec [OF u(1) Cons.prems(2)] Cons.IH [OF u(2)] show ?case by simp
qed

text \<open>
  Claim C9. A caller schedules a callable, which the model knows by what one call of it
  does: \<open>f\<close> is \<open>Throws e\<close> for a callable that raises an error. After any further run
  of the pool, when a worker holds the job of this submission, the future of the
  submission is not ready yet, and the worker's step runs the job: the step is possible,
  the worker is back at the head of its loop (whatever \<open>f\<close> is, an error or a value),
  the future returned by \<^verbatim>\<open>Schedule\<close> holds \<open>f\<close>, the error itself when \<open>f\<close> is
  \<open>Throws e\<close>, and no worker of the pool has been terminated by an exception.
\<close>

theorem job_error_reaches_future:
  assumes "reachable s0"
    and "Schedule c priority f s0 = Some s1"
    and "run as s1 = Some s"
    and "i < length (m_workers s)"
    and "pc (m_workers s ! i) = RunJob (Some (InvokeTask (Schedule_future s0)))"
  shows "\<exists>s'. worker_step i s = Some s' \<and>
     pc (m_workers s' ! i) = LoopHead \<and>
     future_ready (Schedule_future s0) s = None \<and>
     future_ready (Schedule_future s0) s' = Some f \<and>
     (\<forall>j < length (m_workers s'). \<forall>e. pc (m_workers s' ! j) \<noteq> Terminated e)"
proof -
  let ?h = "Schedule_future s0"
  let ?s' = "set_pc i LoopHead
      (s\<lparr>heap := (heap s)[?h := (heap s ! ?h)\<lparr>shared_state := Some (stored_task (heap s ! ?h))\<rparr>]\<rparr>)"
  have "exec (CallSchedule c priority f) s0 = Some s1" using assms(2) by simp
  with assms(1) have r1: "reachable s1" by (rule reachable_step)
  then have r: "reachable s" using assms(3) by (rule reachable_run)
  have h1: "?h < length (heap s1)" "stored_task (heap s1 ! ?h) = f"
    using assms(2) by (auto simp: Schedule_def Schedule_future_def split: if_splits)
  from stored_task_run [OF assms(3) h1(1)] h1(2)
  have h: "?h < length (heap s)" "stored_task (heap s ! ?h) = f" by simp_all
  have u: "unexecuted s ?h"
    using reachable_task_pending_once [OF r] assms(4,5) by (rule held_job_unexecuted)
  have step: "worker_step i s = Some ?s'"
    using assms(4,5) by (simp add: worker_step_def invoke_function_unexecuted [OF u])
  then have "exec (WorkerStep i) s = Some ?s'" by simp
  with r have "reachable ?s'" by (rule reachable_step)
  then have nt: "\<forall>j < length (m_workers ?s'). \<forall>e. pc (m_workers ?s' ! j) \<noteq> Terminated e"
    by (rule reachable_no_terminated)
  have "pc (m_workers ?s' ! i) = LoopHead" using assms(4) by simp
  moreover have "future_ready ?h s = None"
    using u by (simp add: future_ready_def unexecuted_def)
  moreover have "future_ready ?h ?s' = Some f"
    using h by (simp add: future_ready_def)
  ultimately show ?thesis using step nt by blast
qed

theorem job_error_reaches_future_witness:
  "reachable sleeping_state \<and>
   Schedule 0 Normal (Throws (CallableError ''boom'')) sleeping_state =
     Some throwing_scheduled_state \<and>
   Schedule_future sleeping_state = 0 \<and>
   run throwing_trace throwing_scheduled_state = Some throwing_state \<and>
   pc (m_workers throwing_state ! 0) = RunJob (Some (InvokeTask 0)) \<and>
   (\<exists>s'. worker_step 0 throwing_state = Some s' \<and>
      pc (m_workers s' ! 0) = LoopHead \<and>
      future_ready 0 throwing_state = None \<and>
      future_ready 0 s' = Some (Throws (CallableError ''boom'')))"
proof -
  have h1: "reachable sleeping_state" using sleeping_run by (rule reachable_trace)
  have h2: "Schedule 0 Normal (Throws (CallableError ''boom'')) sleeping_state =
      Some throwing_scheduled_state"
    by (simp add: sleeping_state_def throwing_scheduled_state_def Schedule_def Schedule_future_def)
  have h3: "run throwing_trace throwing_scheduled_state = Some throwing_state"
    by (simp add: throwing_trace_def throwing_scheduled_state_def throwing_state_def step_defs)
  have h4: "0 < length (m_workers throwing_state)" by (simp add: throwing_state_def)
  have f: "Schedule_future sleeping_state = 0"
    by (simp add: Schedule_future_def sleeping_state_def)
  have h5: "pc (m_workers throwing_state ! 0) = RunJob (Some (InvokeTask (Schedule_future sleeping_state)))"
    by (simp add: f) (simp add: throwing_state_def)
  from job_error_reaches_future [OF h1 h2 h3 h4 h5] h1 h2 h3 h5 f show ?thesis
    by auto
qed

end
